theory Spec2Isabelle
  imports Complex_Main "HOL-Library.Log_Nat"
begin

section \<open>JavaScript string primitives used by the library\<close>

text \<open>
  Strings are lists of characters. The functions below follow the ECMAScript
  definitions of \<^verbatim>\<open>indexOf\<close>, \<^verbatim>\<open>slice\<close>, \<^verbatim>\<open>startsWith\<close>, \<^verbatim>\<open>endsWith\<close> and of
  the idiom \<^verbatim>\<open>s || d\<close> on strings (the empty string is the only falsy string).
\<close>

fun indexOf :: "string \<Rightarrow> char \<Rightarrow> int" where
  "indexOf [] c = - 1"
| "indexOf (x # xs) c =
     (if x = c then 0 else (let i = indexOf xs c in if i < 0 then - 1 else i + 1))"

definition clampIndex :: "int \<Rightarrow> nat \<Rightarrow> nat" where
  "clampIndex i n = (if i < 0 then nat (max (int n + i) 0) else min (nat i) n)"

definition slice :: "string \<Rightarrow> int \<Rightarrow> int \<Rightarrow> string" where
  "slice s a b =
     (let n = length s; lo = clampIndex a n; hi = clampIndex b n
      in take (hi - lo) (drop lo s))"

definition sliceFrom :: "string \<Rightarrow> int \<Rightarrow> string" where
  "sliceFrom s a = slice s a (int (length s))"

definition startsWith :: "string \<Rightarrow> string \<Rightarrow> bool" where
  "startsWith s t = (take (length t) s = t)"

definition endsWith :: "string \<Rightarrow> string \<Rightarrow> bool" where
  "endsWith s t = (length t \<le> length s \<and> drop (length s - length t) s = t)"

definition orElse :: "string \<Rightarrow> string \<Rightarrow> string" where
  "orElse s d = (if s = [] then d else s)"

definition falsy :: "string option \<Rightarrow> bool" where
  "falsy t = (case t of None \<Rightarrow> True | Some s \<Rightarrow> s = [])"

section \<open>utils.ts\<close>

subsection \<open>normalizeTargetMime\<close>

definition normalizeTargetMime :: "string \<Rightarrow> string option \<Rightarrow> string" where
  "normalizeTargetMime originalMime target =
     (if falsy target \<or> target = Some ''original'' \<or> target = Some ''base64''
      then orElse originalMime ''application/octet-stream''
      else if target = Some ''png'' then ''image/png''
      else if target = Some ''jpeg'' then ''image/jpeg''
      else if target = Some ''webp'' then ''image/webp''
      else if target = Some ''svg'' then ''image/svg+xml''
      else orElse originalMime ''application/octet-stream'')"

subsection \<open>estimateBase64SizeBytes\<close>

text \<open>
  The source computes \<^verbatim>\<open>Math.floor(base64.length * 3 / 4) - padding\<close> on doubles. A
  string length is an integer far below \<open>2^53\<close>, so the product is exact and the
  division by the power of two \<open>4\<close> is exact as well (lemma \<open>three_quarters_exact\<close>
  below); the model computes the quotient in the rationals and takes its floor.
\<close>

definition estimateBase64SizeBytes :: "string \<Rightarrow> int" where
  "estimateBase64SizeBytes dataUrl =
     (let commaIndex = indexOf dataUrl (CHR '','');
          base64 = (if commaIndex \<ge> 0 then sliceFrom dataUrl (commaIndex + 1) else dataUrl);
          padding = (if endsWith base64 ''=='' then 2 else if endsWith base64 ''='' then 1 else 0)
      in \<lfloor>(of_nat (length base64) * 3 / 4 :: rat)\<rfloor> - padding)"

text \<open>The estimator as the specification words it.\<close>

definition payload_of :: "string \<Rightarrow> string" where
  "payload_of s =
     (if CHR '','' \<in> set s then tl (dropWhile (\<lambda>c. c \<noteq> CHR '','') s) else s)"

definition paddingCount :: "string \<Rightarrow> int" where
  "paddingCount b =
     (if take 2 (rev b) = ''=='' then 2 else if take 1 (rev b) = ''='' then 1 else 0)"

definition estimate_spec :: "string \<Rightarrow> int" where
  "estimate_spec s = (int (length (payload_of s)) * 3) div 4 - paddingCount (payload_of s)"

subsection \<open>Double-precision arithmetic\<close>

text \<open>
  A JavaScript \<^verbatim>\<open>number\<close> is an IEEE 754 double. Finite doubles are rationals, and
  \<^verbatim>\<open>a / b\<close>, \<^verbatim>\<open>a * b\<close> and \<^verbatim>\<open>a - b\<close> return the exact result rounded to the nearest
  double, ties to the even significand. \<open>fl\<close> is that rounding for a significand of
  53 bits: \<open>expo x\<close> is the binary exponent of \<open>x\<close> (\<open>2^e \<le> x < 2^(e+1)\<close>), \<open>ulp x\<close> the
  spacing of the doubles in that binade and \<open>rne\<close> rounds to the nearest integer,
  ties to even. The exponent is not bounded: overflow, subnormal numbers, infinities
  and NaN are outside the model. They cannot arise from quotients and products of
  positive integers below \<open>2^53\<close>, which is all that \<^verbatim>\<open>computeResize\<close> forms on the
  inputs considered here (positive dimensions and bounds); a division by zero, which
  JavaScript answers with \<^verbatim>\<open>Infinity\<close> or \<^verbatim>\<open>NaN\<close>, is not represented.
  \<^verbatim>\<open>Math.round\<close> rounds half up and \<^verbatim>\<open>Math.floor\<close> rounds down, both exactly.
\<close>

definition rne :: "rat \<Rightarrow> int" where
  "rne y =
     (let f = \<lfloor>y\<rfloor>; r = y - of_int f
      in if r < 1 / 2 then f else if 1 / 2 < r then f + 1 else if even f then f else f + 1)"

definition expo :: "rat \<Rightarrow> int" where
  "expo x = (if 1 \<le> x then bitlen \<lfloor>x\<rfloor> - 1 else - bitlen (\<lceil>1 / x\<rceil> - 1))"

definition ulp :: "rat \<Rightarrow> rat" where
  "ulp x = 2 powi (expo x - 52)"

definition fl :: "rat \<Rightarrow> rat" where
  "fl x =
     (if x = 0 then 0
      else if 0 < x then of_int (rne (x / ulp x)) * ulp x
      else - (of_int (rne (- x / ulp (- x))) * ulp (- x)))"

definition js_div :: "rat \<Rightarrow> rat \<Rightarrow> rat" where
  "js_div a b = fl (a / b)"

definition js_mul :: "rat \<Rightarrow> rat \<Rightarrow> rat" where
  "js_mul a b = fl (a * b)"

definition js_sub :: "rat \<Rightarrow> rat \<Rightarrow> rat" where
  "js_sub a b = fl (a - b)"

definition Math_round :: "rat \<Rightarrow> int" where
  "Math_round x = \<lfloor>x + 1 / 2\<rfloor>"

definition Math_floor :: "rat \<Rightarrow> int" where
  "Math_floor x = \<lfloor>x\<rfloor>"

subsection \<open>computeResize\<close>

text \<open>
  Dimensions and bounds are integers, as in the specification's data model.
  \<^verbatim>\<open>maxWidth ?? srcWidth\<close> replaces an absent bound only. The default \<^verbatim>\<open>'contain'\<close> of
  the last parameter is never used by the module: \<^verbatim>\<open>convertFileToBase64\<close> passes
  \<^verbatim>\<open>options.resize?.fit ?? 'contain'\<close>.
\<close>

datatype FitMode = Contain | Cover

record Geometry =
  width :: int
  height :: int
  sx :: int
  sy :: int
  sWidth :: int
  sHeight :: int

definition computeResize ::
  "int \<Rightarrow> int \<Rightarrow> int option \<Rightarrow> int option \<Rightarrow> FitMode \<Rightarrow> Geometry" where
  "computeResize srcWidth srcHeight maxWidth maxHeight fit =
     (let sourceAspect = js_div (of_int srcWidth) (of_int srcHeight);
          targetMaxWidth = (case maxWidth of None \<Rightarrow> srcWidth | Some w \<Rightarrow> w);
          targetMaxHeight = (case maxHeight of None \<Rightarrow> srcHeight | Some h \<Rightarrow> h)
      in if fit = Contain then
           (let scale = min (js_div (of_int targetMaxWidth) (of_int srcWidth))
                          (min (js_div (of_int targetMaxHeight) (of_int srcHeight)) 1)
            in \<lparr>width = Math_round (js_mul (of_int srcWidth) scale),
                height = Math_round (js_mul (of_int srcHeight) scale),
                sx = 0, sy = 0, sWidth = srcWidth, sHeight = srcHeight\<rparr>)
         else
           (let targetAspect = js_div (of_int targetMaxWidth) (of_int targetMaxHeight);
                sWidth' = (if sourceAspect > targetAspect
                           then Math_round (js_mul (of_int srcHeight) targetAspect)
                           else srcWidth);
                sHeight' = (if sourceAspect > targetAspect
                            then srcHeight
                            else Math_round (js_div (of_int srcWidth) targetAspect));
                sx' = Math_floor (js_div (js_sub (of_int srcWidth) (of_int sWidth')) 2);
                sy' = Math_floor (js_div (js_sub (of_int srcHeight) (of_int sHeight')) 2)
            in \<lparr>width = targetMaxWidth, height = targetMaxHeight,
                sx = sx', sy = sy', sWidth = sWidth', sHeight = sHeight'\<rparr>))"

text \<open>An absent bound stands for the source dimension.\<close>

definition effective_bound :: "int option \<Rightarrow> int \<Rightarrow> int" where
  "effective_bound b src = (case b of None \<Rightarrow> src | Some v \<Rightarrow> v)"

text \<open>
  The two fit modes as the specification words them, in exact arithmetic:
  \<open>scale = min (maxW / srcW, maxH / srcH, 1)\<close> and \<open>round (src * scale)\<close> for contain;
  the comparison of the two aspect ratios, \<open>round (srcH * targetAspect)\<close>,
  \<open>round (srcW / targetAspect)\<close> and the floored centred offset for cover. Rounding is
  to the nearest integer, halves up.
\<close>

definition contain_scale :: "int \<Rightarrow> int \<Rightarrow> int \<Rightarrow> int \<Rightarrow> rat" where
  "contain_scale srcW srcH maxW maxH =
     Min {of_int maxW / of_int srcW, of_int maxH / of_int srcH, 1}"

definition contain_spec :: "int \<Rightarrow> int \<Rightarrow> int option \<Rightarrow> int option \<Rightarrow> Geometry" where
  "contain_spec srcW srcH maxW maxH =
     (let scale = contain_scale srcW srcH (effective_bound maxW srcW) (effective_bound maxH srcH)
      in \<lparr>width = \<lfloor>of_int srcW * scale + 1 / 2\<rfloor>,
          height = \<lfloor>of_int srcH * scale + 1 / 2\<rfloor>,
          sx = 0, sy = 0, sWidth = srcW, sHeight = srcH\<rparr>)"

definition cover_spec :: "int \<Rightarrow> int \<Rightarrow> int option \<Rightarrow> int option \<Rightarrow> Geometry" where
  "cover_spec srcW srcH maxW maxH =
     (let bw = effective_bound maxW srcW; bh = effective_bound maxH srcH;
          targetAspect = (of_int bw / of_int bh :: rat);
          wider = (of_int srcW / of_int srcH > targetAspect);
          cw = (if wider then \<lfloor>of_int srcH * targetAspect + 1 / 2\<rfloor> else srcW);
          ch = (if wider then srcH else \<lfloor>of_int srcW / targetAspect + 1 / 2\<rfloor>)
      in \<lparr>width = bw, height = bh,
          sx = (srcW - cw) div 2, sy = (srcH - ch) div 2,
          sWidth = cw, sHeight = ch\<rparr>)"

text \<open>A number is halfway between two integers when adding one half makes it whole.\<close>

definition halfway :: "rat \<Rightarrow> bool" where
  "halfway x = (of_int \<lfloor>x + 1 / 2\<rfloor> = x + 1 / 2)"

text \<open>The scale of contain mode as the source computes it, on doubles.\<close>

definition double_scale :: "int \<Rightarrow> int \<Rightarrow> int \<Rightarrow> int \<Rightarrow> rat" where
  "double_scale srcW srcH maxW maxH =
     min (js_div (of_int maxW) (of_int srcW)) (min (js_div (of_int maxH) (of_int srcH)) 1)"

text \<open>The crop of cover mode as the source computes it, on doubles.\<close>

definition double_crop :: "int \<Rightarrow> int \<Rightarrow> int \<Rightarrow> int \<Rightarrow> int \<times> int" where
  "double_crop srcW srcH bw bh =
     (let targetAspect = js_div (of_int bw) (of_int bh);
          wider = (js_div (of_int srcW) (of_int srcH) > targetAspect)
      in (if wider then Math_round (js_mul (of_int srcH) targetAspect) else srcW,
          if wider then srcH else Math_round (js_div (of_int srcW) targetAspect)))"

text \<open>The crop of cover mode in exact arithmetic, as in \<open>cover_spec\<close>.\<close>

definition exact_crop :: "int \<Rightarrow> int \<Rightarrow> int \<Rightarrow> int \<Rightarrow> int \<times> int" where
  "exact_crop srcW srcH bw bh =
     (let targetAspect = (of_int bw / of_int bh :: rat);
          wider = (of_int srcW / of_int srcH > targetAspect)
      in (if wider then \<lfloor>of_int srcH * targetAspect + 1 / 2\<rfloor> else srcW,
          if wider then srcH else \<lfloor>of_int srcW / targetAspect + 1 / 2\<rfloor>))"

text \<open>An optional bound is positive when it is absent or a positive integer.\<close>

definition positive_bound :: "int option \<Rightarrow> bool" where
  "positive_bound b = (case b of None \<Rightarrow> True | Some v \<Rightarrow> 0 < v)"

subsection \<open>isSvgMime\<close>

definition isSvgMime :: "string \<Rightarrow> bool" where
  "isSvgMime mime = (mime = ''image/svg+xml'' \<or> mime = ''image/svg'')"

section \<open>convert.ts\<close>

subsection \<open>Pure helpers\<close>

definition extractMimeFromDataUrl :: "string \<Rightarrow> string" where
  "extractMimeFromDataUrl dataUrl =
     (let semi = indexOf dataUrl (CHR '';'')
      in if startsWith dataUrl ''data:'' \<and> semi > 5 then slice dataUrl 5 semi
         else ''application/octet-stream'')"

definition clampCanvasMime :: "string \<Rightarrow> string" where
  "clampCanvasMime requested =
     (if requested = ''image/jpeg'' \<or> requested = ''image/webp'' then requested
      else ''image/png'')"

subsection \<open>Data\<close>

text \<open>
  Modelled from the spec: the declarations of \<^verbatim>\<open>ConvertOptions\<close> and \<^verbatim>\<open>ConvertResult\<close>
  (\<^verbatim>\<open>types.ts\<close> is not among the sources). The fields are those of section 3 of the
  specification, which are also the ones \<^verbatim>\<open>convert.ts\<close> reads and writes; an optional
  field is an \<open>option\<close>. The result's optional \<^verbatim>\<open>width\<close> and \<^verbatim>\<open>height\<close> are named
  \<open>resultWidth\<close> and \<open>resultHeight\<close>, apart from the fields of \<open>Geometry\<close>.
\<close>

record ResizeOptions =
  maxWidth :: "int option"
  maxHeight :: "int option"
  fit :: "FitMode option"

record ConvertOptions =
  targetFormat :: "string option"
  quality :: "rat option"
  resize :: "ResizeOptions option"
  background :: "string option"

record ConvertResult =
  dataUrl :: string
  mime :: string
  sizeBytes :: int
  resultWidth :: "int option"
  resultHeight :: "int option"
  fileName :: string

text \<open>
  Platform values. A \<open>Blob\<close> is a media type and bytes, a \<open>File\<close> a named blob, an
  \<open>ImageBitmap\<close> a decoded raster with its dimensions. A canvas is its kind, its size
  and the drawing calls made on it so far.
\<close>

type_synonym bytes = "nat list"

record Blob =
  blobType :: string
  blobBytes :: bytes

record File =
  fileType :: string
  name :: string
  fileBytes :: bytes

definition fileBlob :: "File \<Rightarrow> Blob" where
  "fileBlob file = \<lparr>blobType = fileType file, blobBytes = fileBytes file\<rparr>"

record ImageBitmap =
  bitmapWidth :: int
  bitmapHeight :: int
  bitmapPixels :: bytes

datatype CanvasKind = OffscreenCanvas | HTMLCanvasElement

datatype DrawCall =
  FillRect string int int int int
  | DrawImage ImageBitmap int int int int int int int int

record Canvas =
  canvasKind :: CanvasKind
  canvasWidth :: int
  canvasHeight :: int
  drawn :: "DrawCall list"

subsection \<open>The platform\<close>

text \<open>
  A thrown JavaScript value is an \<open>exn\<close>. Every platform primitive the module calls
  is a field of the environment: it returns a value or throws (rejects). The module
  awaits each call before the next, so a conversion is a sequence of calls; each
  function below returns the calls it made, in order, with its outcome.
\<close>

datatype exn = Exn string

record Env =
  readAsDataURL :: "Blob \<Rightarrow> exn + string"
  arrayBuffer :: "File \<Rightarrow> exn + bytes"
  createImageBitmap :: "Blob \<Rightarrow> exn + ImageBitmap"
  documentDefined :: bool
  offscreenCanvasDefined :: bool
  imageElementDecode :: "Blob \<Rightarrow> exn + ImageBitmap"
  canvasThrows :: "CanvasKind \<Rightarrow> int \<Rightarrow> int \<Rightarrow> exn option"
  drawThrows :: "Canvas \<Rightarrow> DrawCall \<Rightarrow> exn option"
  convertToBlob :: "Canvas \<Rightarrow> string \<Rightarrow> rat \<Rightarrow> exn + Blob"
  toDataURL :: "Canvas \<Rightarrow> string \<Rightarrow> rat \<Rightarrow> exn + string"

datatype Call =
  CallReadAsDataURL Blob
  | CallArrayBuffer File
  | CallCreateImageBitmap Blob
  | CallCreateObjectURL Blob
  | CallImageElementDecode Blob
  | CallRevokeObjectURL Blob
  | CallNewCanvas CanvasKind int int
  | CallDraw DrawCall
  | CallEncode CanvasKind string rat

type_synonym 'a io = "Call list \<times> (exn + 'a)"

definition ret :: "'a \<Rightarrow> 'a io" where
  "ret x = ([], Inr x)"

definition throw :: "exn \<Rightarrow> 'a io" where
  "throw e = ([], Inl e)"

definition call :: "Call \<Rightarrow> exn + 'a \<Rightarrow> 'a io" where
  "call c r = ([c], r)"

definition bind :: "'a io \<Rightarrow> ('a \<Rightarrow> 'b io) \<Rightarrow> 'b io" where
  "bind m f =
     (case m of
        (t, Inl e) \<Rightarrow> (t, Inl e)
      | (t, Inr x) \<Rightarrow> (case f x of (t', r) \<Rightarrow> (t @ t', r)))"

definition catch :: "'a io \<Rightarrow> (exn \<Rightarrow> 'a io) \<Rightarrow> 'a io" where
  "catch m h =
     (case m of
        (t, Inl e) \<Rightarrow> (case h e of (t', r) \<Rightarrow> (t @ t', r))
      | (t, Inr x) \<Rightarrow> (t, Inr x))"

subsection \<open>The module's functions\<close>

definition readFileAsArrayBuffer :: "Env \<Rightarrow> File \<Rightarrow> bytes io" where
  "readFileAsArrayBuffer env file = call (CallArrayBuffer file) (arrayBuffer env file)"

definition readFileAsDataURL :: "Env \<Rightarrow> Blob \<Rightarrow> string io" where
  "readFileAsDataURL env blob = call (CallReadAsDataURL blob) (readAsDataURL env blob)"

definition blobToImageBitmap :: "Env \<Rightarrow> Blob \<Rightarrow> ImageBitmap io" where
  "blobToImageBitmap env blob = call (CallCreateImageBitmap blob) (createImageBitmap env blob)"

definition isDomAvailable :: "Env \<Rightarrow> bool" where
  "isDomAvailable env = documentDefined env"

text \<open>
  \<^verbatim>\<open>createCanvas\<close>: an \<^verbatim>\<open>OffscreenCanvas\<close> when that constructor exists and there is no
  DOM, a canvas element otherwise; the latter reads \<^verbatim>\<open>document\<close> and so throws a
  \<^verbatim>\<open>ReferenceError\<close> when there is no DOM either.
\<close>

definition createCanvas :: "Env \<Rightarrow> int \<Rightarrow> int \<Rightarrow> Canvas io" where
  "createCanvas env w h =
     (if offscreenCanvasDefined env \<and> \<not> isDomAvailable env then
        call (CallNewCanvas OffscreenCanvas w h)
          (case canvasThrows env OffscreenCanvas w h of
             Some e \<Rightarrow> Inl e
           | None \<Rightarrow> Inr \<lparr>canvasKind = OffscreenCanvas, canvasWidth = w, canvasHeight = h,
                         drawn = []\<rparr>)
      else if \<not> isDomAvailable env then throw (Exn ''ReferenceError: document is not defined'')
      else
        call (CallNewCanvas HTMLCanvasElement w h)
          (case canvasThrows env HTMLCanvasElement w h of
             Some e \<Rightarrow> Inl e
           | None \<Rightarrow> Inr \<lparr>canvasKind = HTMLCanvasElement, canvasWidth = w, canvasHeight = h,
                         drawn = []\<rparr>))"

definition draw :: "Env \<Rightarrow> Canvas \<Rightarrow> DrawCall \<Rightarrow> Canvas io" where
  "draw env canvas d =
     call (CallDraw d)
       (case drawThrows env canvas d of
          Some e \<Rightarrow> Inl e
        | None \<Rightarrow> Inr (canvas\<lparr>drawn := drawn canvas @ [d]\<rparr>))"

definition canvasToDataURL :: "Env \<Rightarrow> Canvas \<Rightarrow> string \<Rightarrow> rat \<Rightarrow> string io" where
  "canvasToDataURL env canvas type q =
     (if canvasKind canvas = OffscreenCanvas then
        bind (call (CallEncode OffscreenCanvas type q) (convertToBlob env canvas type q))
          (\<lambda>blob. readFileAsDataURL env blob)
      else call (CallEncode HTMLCanvasElement type q) (toDataURL env canvas type q))"

text \<open>The fallback decode of lines 85 to 97: an image element loaded from an object URL,
  which is revoked whether the load succeeds or fails.\<close>

definition imageElementFallback :: "Env \<Rightarrow> Blob \<Rightarrow> ImageBitmap io" where
  "imageElementFallback env blob =
     (CallCreateObjectURL blob # CallImageElementDecode blob # [CallRevokeObjectURL blob],
      imageElementDecode env blob)"

text \<open>Lines 77 to 117 of \<^verbatim>\<open>convertFileToBase64\<close>: the conversion through a canvas.\<close>

definition convertViaCanvas ::
  "Env \<Rightarrow> File \<Rightarrow> ConvertOptions \<Rightarrow> string \<Rightarrow> string \<Rightarrow> ConvertResult io" where
  "convertViaCanvas env file options originalMime targetMimeRequested =
     bind (readFileAsArrayBuffer env file) (\<lambda>buf.
     let blob = \<lparr>blobType = originalMime, blobBytes = buf\<rparr> in
     bind (catch (blobToImageBitmap env blob)
             (\<lambda>err. if \<not> isDomAvailable env then throw err
                    else imageElementFallback env blob)) (\<lambda>bitmap.
     let srcW = bitmapWidth bitmap; srcH = bitmapHeight bitmap;
         fit' = (case resize options of None \<Rightarrow> Contain
                 | Some r \<Rightarrow> (case fit r of None \<Rightarrow> Contain | Some f \<Rightarrow> f));
         g = computeResize srcW srcH
               (case resize options of None \<Rightarrow> None | Some r \<Rightarrow> maxWidth r)
               (case resize options of None \<Rightarrow> None | Some r \<Rightarrow> maxHeight r) fit' in
     bind (createCanvas env (width g) (height g)) (\<lambda>canvas.
     let requestedCanvasMime = clampCanvasMime targetMimeRequested;
         shouldCompositeBackground = (requestedCanvasMime = ''image/jpeg'') in
     bind (if shouldCompositeBackground
           then draw env canvas
                  (FillRect (case background options of None \<Rightarrow> ''#ffffff'' | Some c \<Rightarrow> c)
                     0 0 (width g) (height g))
           else ret canvas) (\<lambda>canvas.
     bind (draw env canvas
             (DrawImage bitmap (sx g) (sy g) (sWidth g) (sHeight g) 0 0 (width g) (height g)))
       (\<lambda>canvas.
     let quality' = (case quality options of None \<Rightarrow> 92 / 100 | Some q \<Rightarrow> q) in
     bind (canvasToDataURL env canvas requestedCanvasMime quality') (\<lambda>dataUrl.
     ret \<lparr>dataUrl = dataUrl, mime = extractMimeFromDataUrl dataUrl,
          sizeBytes = estimateBase64SizeBytes dataUrl,
          resultWidth = Some (width g), resultHeight = Some (height g),
          fileName = name file\<rparr>))))))"

definition passthrough :: "Env \<Rightarrow> File \<Rightarrow> ConvertResult io" where
  "passthrough env file =
     bind (readFileAsDataURL env (fileBlob file)) (\<lambda>dataUrl.
     ret \<lparr>dataUrl = dataUrl, mime = extractMimeFromDataUrl dataUrl,
          sizeBytes = estimateBase64SizeBytes dataUrl,
          resultWidth = None, resultHeight = None, fileName = name file\<rparr>)"

definition convertFileToBase64 :: "Env \<Rightarrow> File \<Rightarrow> ConvertOptions \<Rightarrow> ConvertResult io" where
  "convertFileToBase64 env file options =
     (let originalMime = orElse (fileType file) ''application/octet-stream'';
          targetMimeRequested = normalizeTargetMime originalMime (targetFormat options)
      in if isSvgMime originalMime
            \<and> (targetFormat options = Some ''svg'' \<or> targetFormat options = Some ''original''
               \<or> targetFormat options = Some ''base64'' \<or> falsy (targetFormat options))
         then passthrough env file
         else if targetFormat options = Some ''original'' \<or> targetFormat options = Some ''base64''
                 \<or> (falsy (targetFormat options) \<and> startsWith originalMime ''image/'')
         then
           (let needsCanvas = (resize options \<noteq> None \<or> targetMimeRequested = ''image/jpeg'')
            in if \<not> needsCanvas then passthrough env file
               else convertViaCanvas env file options originalMime targetMimeRequested)
         else convertViaCanvas env file options originalMime targetMimeRequested)"

subsection \<open>The data URL of a blob\<close>

text \<open>
  \<^verbatim>\<open>FileReader.readAsDataURL\<close> of the File API answers, when it succeeds, with the
  blob packaged as a data URL: the scheme, the blob's media type (the generic type
  for a blob without one), the \<open>base64\<close> marker and the bytes in base64 with padding.
  A byte is a natural number below 256.
\<close>

definition b64alphabet :: string where
  "b64alphabet = ''ABCDEFGHIJKLMNOPQRSTUVWXYZabcdefghijklmnopqrstuvwxyz0123456789+/''"

definition b64char :: "nat \<Rightarrow> char" where
  "b64char n = b64alphabet ! n"

fun base64 :: "nat list \<Rightarrow> string" where
  "base64 [] = []"
| "base64 [a] = [b64char (a div 4), b64char (a mod 4 * 16), CHR ''='', CHR ''='']"
| "base64 [a, b] =
     [b64char (a div 4), b64char (a mod 4 * 16 + b div 16), b64char (b mod 16 * 4), CHR ''='']"
| "base64 (a # b # c # rest) =
     b64char (a div 4) # b64char (a mod 4 * 16 + b div 16)
       # b64char (b mod 16 * 4 + c div 64) # b64char (c mod 64) # base64 rest"

definition b64index :: "char \<Rightarrow> nat option" where
  "b64index c = (let i = indexOf b64alphabet c in if i < 0 then None else Some (nat i))"

fun base64_decode :: "string \<Rightarrow> nat list option" where
  "base64_decode [] = Some []"
| "base64_decode (c1 # c2 # c3 # c4 # rest) =
     (case (b64index c1, b64index c2) of
        (Some i1, Some i2) \<Rightarrow>
          if c3 = CHR ''='' \<and> c4 = CHR ''='' \<and> rest = [] then Some [i1 * 4 + i2 div 16]
          else (case b64index c3 of
                  None \<Rightarrow> None
                | Some i3 \<Rightarrow>
                    if c4 = CHR ''='' \<and> rest = []
                    then Some [i1 * 4 + i2 div 16, i2 mod 16 * 16 + i3 div 4]
                    else (case b64index c4 of
                            None \<Rightarrow> None
                          | Some i4 \<Rightarrow>
                              (case base64_decode rest of
                                 None \<Rightarrow> None
                               | Some bs \<Rightarrow>
                                   Some ([i1 * 4 + i2 div 16, i2 mod 16 * 16 + i3 div 4,
                                          i3 mod 4 * 64 + i4] @ bs))))
      | _ \<Rightarrow> None)"
| "base64_decode _ = None"

definition dataURL :: "Blob \<Rightarrow> string" where
  "dataURL blob =
     ''data:'' @ orElse (blobType blob) ''application/octet-stream'' @ '';base64,''
       @ base64 (blobBytes blob)"

section \<open>Sample platforms and inputs\<close>

text \<open>
  Concrete environments, files and options on which the theorems below are
  instantiated: a browser with a DOM whose reader follows the File API and whose
  decoder yields a 4000 by 2000 bitmap, a worker without DOM whose decoder rejects,
  and a browser whose canvas encodes PNG whatever type is asked for.
\<close>

definition demoBitmap :: ImageBitmap where
  "demoBitmap = \<lparr>bitmapWidth = 4000, bitmapHeight = 2000, bitmapPixels = []\<rparr>"

definition browserEnv :: Env where
  "browserEnv =
     \<lparr>readAsDataURL = (\<lambda>b. Inr (dataURL b)),
      arrayBuffer = (\<lambda>f. Inr (fileBytes f)),
      createImageBitmap = (\<lambda>b. Inr demoBitmap),
      documentDefined = True,
      offscreenCanvasDefined = False,
      imageElementDecode = (\<lambda>b. Inr demoBitmap),
      canvasThrows = (\<lambda>k w h. None),
      drawThrows = (\<lambda>c d. None),
      convertToBlob = (\<lambda>c t q. Inr \<lparr>blobType = t, blobBytes = []\<rparr>),
      toDataURL = (\<lambda>c t q. Inr (''data:'' @ t @ '';base64,AAAA''))\<rparr>"

definition workerEnv :: Env where
  "workerEnv =
     browserEnv\<lparr>documentDefined := False, offscreenCanvasDefined := True,
       createImageBitmap := (\<lambda>b. Inl (Exn ''InvalidStateError''))\<rparr>"

definition pngOnlyEnv :: Env where
  "pngOnlyEnv = browserEnv\<lparr>toDataURL := (\<lambda>c t q. Inr ''data:image/png;base64,AAAA'')\<rparr>"

definition jpegFile :: File where
  "jpegFile = \<lparr>fileType = ''image/jpeg'', name = ''photo.jpg'', fileBytes = [255, 216, 255]\<rparr>"

definition pngFile :: File where
  "pngFile = \<lparr>fileType = ''image/png'', name = ''icon.png'', fileBytes = [137, 80, 78, 71]\<rparr>"

definition svgFile :: File where
  "svgFile = \<lparr>fileType = ''image/svg+xml'', name = ''logo.svg'', fileBytes = [60, 115, 118, 103]\<rparr>"

definition noOptions :: ConvertOptions where
  "noOptions = \<lparr>targetFormat = None, quality = None, resize = None, background = None\<rparr>"

definition svgTargetOptions :: ConvertOptions where
  "svgTargetOptions = noOptions\<lparr>targetFormat := Some ''svg''\<rparr>"

definition webpTargetOptions :: ConvertOptions where
  "webpTargetOptions = noOptions\<lparr>targetFormat := Some ''webp''\<rparr>"

section \<open>Properties of the string primitives\<close>

lemma indexOf_neg_iff: "indexOf s c < 0 \<longleftrightarrow> c \<notin> set s"
  by (induction s) (auto simp: Let_def)

lemma indexOf_ge_m1: "- 1 \<le> indexOf s c"
  by (induction s) (auto simp: Let_def)

lemma indexOf_dropWhile:
  "c \<in> set s \<Longrightarrow> drop (nat (indexOf s c)) s = dropWhile (\<lambda>x. x \<noteq> c) s"
proof (induction s)
  case Nil
  then show ?case by simp
next
  case (Cons x xs)
  show ?case
  proof (cases "x = c")
    case True
    then show ?thesis by simp
  next
    case False
    with Cons.prems have mem: "c \<in> set xs" by simp
    then have nn: "\<not> indexOf xs c < 0" by (simp add: indexOf_neg_iff)
    then have "nat (indexOf xs c + 1) = Suc (nat (indexOf xs c))" by simp
    with False nn Cons.IH [OF mem] show ?thesis by (simp add: Let_def)
  qed
qed

lemma indexOf_le_length: "indexOf s c < int (length s) \<or> s = []"
  by (induction s) (auto simp: Let_def)

lemma sliceFrom_drop: "0 \<le> a \<Longrightarrow> sliceFrom s a = drop (nat a) s"
  by (auto simp: sliceFrom_def slice_def clampIndex_def Let_def min_def)

lemma sliceFrom_indexOf:
  assumes "c \<in> set s"
  shows "sliceFrom s (indexOf s c + 1) = tl (dropWhile (\<lambda>x. x \<noteq> c) s)"
proof -
  from assms have nn: "0 \<le> indexOf s c" using indexOf_neg_iff [of s c] by simp
  then have "sliceFrom s (indexOf s c + 1) = drop (Suc (nat (indexOf s c))) s"
    by (simp add: sliceFrom_drop nat_add_distrib)
  also have "\<dots> = tl (drop (nat (indexOf s c)) s)" by (simp add: drop_Suc tl_drop)
  finally show ?thesis using indexOf_dropWhile [OF assms] by simp
qed

lemma endsWith_rev: "endsWith b t \<longleftrightarrow> take (length t) (rev b) = rev t"
proof
  assume "endsWith b t"
  then have le: "length t \<le> length b" and d: "drop (length b - length t) b = t"
    by (simp_all add: endsWith_def)
  have "take (length t) (rev b) = rev (drop (length b - length t) b)"
    by (simp add: take_rev)
  with d show "take (length t) (rev b) = rev t" by simp
next
  assume a: "take (length t) (rev b) = rev t"
  then have "length (take (length t) (rev b)) = length t" by simp
  then have le: "length t \<le> length b" by simp
  have "rev (take (length t) (rev b)) = drop (length b - length t) b"
    by (simp add: rev_take)
  with a le show "endsWith b t" by (simp add: endsWith_def)
qed

lemma floor_three_quarters: "\<lfloor>(of_nat n * 3 / 4 :: rat)\<rfloor> = (int n * 3) div 4"
proof -
  have "(of_nat n * 3 / 4 :: rat) = of_int (int n * 3) / of_int 4" by simp
  then show ?thesis by (simp only: floor_divide_of_int_eq)
qed

lemma estimate_payload:
  "estimateBase64SizeBytes s =
     (let b = payload_of s in
        (int (length b) * 3) div 4
          - (if endsWith b ''=='' then 2 else if endsWith b ''='' then 1 else 0))"
proof (cases "CHR '','' \<in> set s")
  case True
  then have "0 \<le> indexOf s (CHR '','')" using indexOf_neg_iff [of s "CHR '',''"] by simp
  with True show ?thesis
    by (simp add: estimateBase64SizeBytes_def payload_of_def Let_def sliceFrom_indexOf
        floor_three_quarters)
next
  case False
  then have "\<not> 0 \<le> indexOf s (CHR '','')" using indexOf_neg_iff [of s "CHR '',''"] by simp
  with False show ?thesis
    by (simp add: estimateBase64SizeBytes_def payload_of_def Let_def floor_three_quarters)
qed

section \<open>Properties of the double-precision model\<close>

lemma expo_bounds:
  assumes "0 < x"
  shows "2 powi (expo x) \<le> x \<and> x < 2 powi (expo x + 1)"
proof (cases "1 \<le> x")
  case True
  define n where "n = \<lfloor>x\<rfloor>"
  have n1: "1 \<le> n" using True by (simp add: n_def le_floor_iff)
  then have npos: "0 < n" by simp
  from bitlen_bounds [OF npos]
  have lo: "2 ^ nat (bitlen n - 1) \<le> n" and hi: "n < 2 ^ nat (bitlen n)" by simp_all
  have b1: "1 \<le> bitlen n" using npos by (simp add: bitlen_alt_def)
  have e: "expo x = bitlen n - 1" using True by (simp add: expo_def n_def)
  have "(2::rat) powi (bitlen n - 1) = 2 ^ nat (bitlen n - 1)"
    using b1 by (simp add: power_int_nonneg_exp)
  also have "\<dots> = of_int (2 ^ nat (bitlen n - 1))" by simp
  also have "\<dots> \<le> of_int n" using lo by (simp only: of_int_le_iff)
  also have "\<dots> \<le> x" by (simp add: n_def)
  finally have L: "2 powi (expo x) \<le> x" by (simp add: e)
  have "n + 1 \<le> 2 ^ nat (bitlen n)" using hi by simp
  then have "(of_int (n + 1) :: rat) \<le> of_int (2 ^ nat (bitlen n))" by (simp only: of_int_le_iff)
  moreover have "x < of_int (n + 1)" unfolding n_def by simp linarith
  ultimately have "x < of_int (2 ^ nat (bitlen n))" by simp
  also have "\<dots> = 2 powi (bitlen n)" using b1 by (simp add: power_int_nonneg_exp)
  finally have "x < 2 powi (expo x + 1)" by (simp add: e)
  with L show ?thesis by simp
next
  case False
  define y where "y = 1 / x"
  have y1: "1 < y" using False assms by (simp add: y_def)
  define m where "m = \<lceil>y\<rceil> - 1"
  have m1: "1 \<le> m" using y1 by (simp add: m_def less_ceiling_iff)
  then have mpos: "0 < m" by simp
  from bitlen_bounds [OF mpos]
  have lo: "2 ^ nat (bitlen m - 1) \<le> m" and hi: "m < 2 ^ nat (bitlen m)" by simp_all
  have b1: "1 \<le> bitlen m" using mpos by (simp add: bitlen_alt_def)
  have e: "expo x = - bitlen m" using False by (simp add: expo_def m_def y_def)
  have my: "of_int m < y" by (simp add: m_def) linarith
  have ym: "y \<le> of_int (m + 1)" by (simp add: m_def)
  have "m + 1 \<le> 2 ^ nat (bitlen m)" using hi by simp
  then have "(of_int (m + 1) :: rat) \<le> of_int (2 ^ nat (bitlen m))" by (simp only: of_int_le_iff)
  with ym have "y \<le> 2 ^ nat (bitlen m)" by simp
  then have "y \<le> 2 powi (bitlen m)" using b1 by (simp add: power_int_nonneg_exp)
  then have "1 / (2 powi (bitlen m)) \<le> 1 / y"
    using y1 by (intro divide_left_mono) simp_all
  then have L: "2 powi (expo x) \<le> x"
    using assms by (simp add: e y_def power_int_minus_divide)
  have "(of_int (2 ^ nat (bitlen m - 1)) :: rat) \<le> of_int m" using lo by (simp only: of_int_le_iff)
  then have "(2::rat) ^ nat (bitlen m - 1) \<le> of_int m" by simp
  with my have "2 ^ nat (bitlen m - 1) < y" by linarith
  then have lt: "2 powi (bitlen m - 1) < y" using b1 by (simp add: power_int_nonneg_exp)
  have "1 / y < 1 / (2 powi (bitlen m - 1))"
    using lt y1 by (intro divide_strict_left_mono) (simp_all add: mult_pos_pos)
  then have "x < 1 / (2 powi (bitlen m - 1))" using assms by (simp add: y_def)
  also have "\<dots> = 2 powi (- (bitlen m - 1))" by (simp only: power_int_minus_divide)
  finally have "x < 2 powi (expo x + 1)" by (simp add: e)
  with L show ?thesis by simp
qed

lemma rne_error: "\<bar>of_int (rne y) - y\<bar> \<le> 1 / 2"
proof -
  have "of_int \<lfloor>y\<rfloor> \<le> y" "y < of_int \<lfloor>y\<rfloor> + 1" by linarith+
  then show ?thesis by (auto simp: rne_def Let_def)
qed

lemma rne_of_int: "rne (of_int n) = n"
  by (simp add: rne_def)

lemma ulp_pos: "0 < ulp x"
  by (simp add: ulp_def)

lemma fl_error:
  assumes "0 < x"
  shows "\<bar>fl x - x\<bar> \<le> x / 2 ^ 53"
proof -
  let ?s = "ulp x"
  have s: "0 < ?s" by (rule ulp_pos)
  have "fl x - x = (of_int (rne (x / ?s)) - x / ?s) * ?s"
    using assms s by (simp add: fl_def field_simps)
  then have "\<bar>fl x - x\<bar> = \<bar>of_int (rne (x / ?s)) - x / ?s\<bar> * ?s"
    using s by (simp add: abs_mult)
  also have "\<dots> \<le> 1 / 2 * ?s"
    using rne_error [of "x / ?s"] s by (intro mult_right_mono) simp_all
  also have "\<dots> = 2 powi (expo x) / 2 ^ 53"
    by (simp add: ulp_def power_int_diff)
  also have "\<dots> \<le> x / 2 ^ 53"
    using expo_bounds [OF assms] by (simp add: divide_right_mono)
  finally show ?thesis .
qed

lemma fl_exact:
  assumes "0 < x" and "x / ulp x = of_int k"
  shows "fl x = x"
proof -
  have "0 < ulp x" by (rule ulp_pos)
  then have "x = of_int k * ulp x" using assms(2) by (simp add: field_simps)
  moreover have "fl x = of_int (rne (of_int k)) * ulp x"
    using assms by (simp add: fl_def)
  ultimately show ?thesis by (simp add: rne_of_int)
qed

lemma expo_less:
  assumes "0 < x" and "x < 2 powi k"
  shows "expo x < k"
proof (rule ccontr)
  assume "\<not> expo x < k"
  then have "k \<le> expo x" by simp
  then have "(2::rat) powi k \<le> 2 powi (expo x)" by (intro power_int_increasing) simp_all
  with expo_bounds [OF assms(1)] assms(2) show False by simp
qed

lemma fl_dyadic:
  assumes "0 < n" and "n < 2 ^ 53"
  shows "fl (of_int n * 2 powi j) = of_int n * 2 powi j"
proof -
  let ?x = "of_int n * 2 powi j :: rat"
  have xpos: "0 < ?x" using assms(1) by (simp add: mult_pos_pos)
  have "(of_int n :: rat) < of_int (2 ^ 53)" using assms(2) by (simp only: of_int_less_iff)
  then have "(of_int n :: rat) < 2 powi 53" by simp
  then have "?x < 2 powi 53 * 2 powi j" by (intro mult_strict_right_mono) simp_all
  also have "\<dots> = 2 powi (53 + j)" by (simp add: power_int_add)
  finally have "expo ?x < 53 + j" using expo_less [OF xpos] by blast
  then have d: "0 \<le> j - (expo ?x - 52)" by simp
  have "?x / ulp ?x = of_int n * 2 powi (j - (expo ?x - 52))"
    by (simp add: ulp_def power_int_diff)
  also have "\<dots> = of_int n * 2 ^ nat (j - (expo ?x - 52))"
    using d by (simp only: power_int_nonneg_exp)
  also have "\<dots> = of_int (n * 2 ^ nat (j - (expo ?x - 52)))" by simp
  finally show ?thesis using fl_exact [OF xpos] by blast
qed

lemma fl_of_int:
  assumes "0 \<le> n" and "n < 2 ^ 53"
  shows "fl (of_int n) = of_int n"
proof (cases "n = 0")
  case True
  then show ?thesis by (simp add: fl_def)
next
  case False
  with assms(1) have "0 < n" by simp
  from fl_dyadic [OF this assms(2), of 0] show ?thesis by simp
qed

lemma fl_half:
  assumes "0 \<le> n" and "n < 2 ^ 53"
  shows "fl (of_int n / 2) = of_int n / 2"
proof (cases "n = 0")
  case True
  then show ?thesis by (simp add: fl_def)
next
  case False
  with assms(1) have "0 < n" by simp
  from fl_dyadic [OF this assms(2), of "- 1"] show ?thesis
    by (simp add: power_int_minus_divide)
qed


lemma fl_upper:
  assumes "0 < x"
  shows "fl x \<le> x * (1 + 1 / 2 ^ 53)"
proof -
  from fl_error [OF assms] have "fl x - x \<le> x / 2 ^ 53" by (simp only: abs_le_iff)
  then have "fl x \<le> x + x / 2 ^ 53" by linarith
  then show ?thesis by (simp only: distrib_left mult_1_right times_divide_eq_right)
qed

lemma fl_lower:
  assumes "0 < x"
  shows "x * (1 - 1 / 2 ^ 53) \<le> fl x"
proof -
  from fl_error [OF assms] have "- (fl x - x) \<le> x / 2 ^ 53" by (simp only: abs_le_iff)
  then have "x - x / 2 ^ 53 \<le> fl x" by linarith
  then show ?thesis by (simp only: right_diff_distrib mult_1_right times_divide_eq_right)
qed

lemma fl_pos: "0 < x \<Longrightarrow> 0 < fl x"
proof -
  assume x: "0 < x"
  have "0 < x * (1 - 1 / 2 ^ 53)" using x by (intro mult_pos_pos) simp_all
  with fl_lower [OF x] show ?thesis by linarith
qed

lemma js_div_pos: "0 < a \<Longrightarrow> 0 < b \<Longrightarrow> 0 < js_div a b"
  by (simp add: js_div_def fl_pos)

lemma centred_offset:
  assumes "0 \<le> c" and "c \<le> s" and "s < 2 ^ 53"
  shows "Math_floor (js_div (js_sub (of_int s) (of_int c)) 2) = (s - c) div 2"
proof -
  have d: "0 \<le> s - c" "s - c < 2 ^ 53" using assms by simp_all
  have "js_sub (of_int s) (of_int c) = of_int (s - c)"
    using fl_of_int [OF d] by (simp add: js_sub_def)
  then have e: "js_div (js_sub (of_int s) (of_int c)) 2 = of_int (s - c) / of_int 2"
    using fl_half [OF d] by (simp add: js_div_def)
  show ?thesis unfolding Math_floor_def e by (rule floor_divide_of_int_eq)
qed

lemma round_le:
  assumes "x < of_int n + 1 / 2"
  shows "Math_round x \<le> n"
proof -
  have "x + 1 / 2 < of_int (n + 1)" using assms by simp
  then have "\<lfloor>x + 1 / 2\<rfloor> < n + 1" by (simp only: floor_less_iff)
  then show ?thesis by (simp add: Math_round_def)
qed

lemma round_nonneg: "0 \<le> x \<Longrightarrow> 0 \<le> Math_round x"
  by (simp add: Math_round_def)

lemma round_ge_one: "1 / 2 \<le> x \<Longrightarrow> 1 \<le> Math_round x"
  by (simp add: Math_round_def le_floor_iff)

text \<open>Two roundings of a quantity below \<open>w\<close> stay below \<open>w + 1/2\<close> when \<open>w \<le> 2^50\<close>.\<close>

lemma two_roundings:
  assumes "0 < w" and "w \<le> 2 ^ 50"
  shows "(w::rat) * (1 + 1 / 2 ^ 53) * (1 + 1 / 2 ^ 53) < w + 1 / 2"
proof -
  have "w * ((1 + 1 / 2 ^ 53) * (1 + 1 / 2 ^ 53) - 1) \<le> 2 ^ 50 * ((1 + 1 / 2 ^ 53) * (1 + 1 / 2 ^ 53) - 1)"
    using assms(2) by (intro mult_right_mono) simp_all
  also have "\<dots> < 1 / 2" by simp
  finally show ?thesis by (simp add: algebra_simps)
qed

lemma round_div_rounding:
  assumes "0 < w" and "w \<le> 2 ^ 50"
  shows "(w::rat) / (1 - 1 / 2 ^ 53) * (1 + 1 / 2 ^ 53) < w + 1 / 2"
proof -
  have "w * ((1 + 1 / 2 ^ 53) / (1 - 1 / 2 ^ 53) - 1) \<le> 2 ^ 50 * ((1 + 1 / 2 ^ 53) / (1 - 1 / 2 ^ 53) - 1)"
    using assms(2) by (intro mult_right_mono) simp_all
  also have "\<dots> < 1 / 2" by simp
  finally show ?thesis by (simp add: algebra_simps)
qed

text \<open>The size estimate: product and quotient are exact on doubles.\<close>

lemma three_quarters_exact:
  assumes "n < 2 ^ 50"
  shows "Math_floor (js_div (js_mul (of_nat n) 3) 4) = \<lfloor>(of_nat n * 3 / 4 :: rat)\<rfloor>"
proof -
  have b: "0 \<le> int n * 3" "int n * 3 < 2 ^ 53" using assms by simp_all
  have m: "js_mul (of_nat n) 3 = of_int (int n * 3)"
    using fl_of_int [OF b] by (simp add: js_mul_def)
  have d: "js_div (of_int (int n * 3)) 4 = of_int (int n * 3) / 4"
  proof (cases "n = 0")
    case True
    then show ?thesis by (simp add: js_div_def fl_def)
  next
    case False
    then have "0 < int n * 3" by simp
    from fl_dyadic [OF this b(2), of "- 2"] show ?thesis
      by (simp add: js_div_def power_int_minus_divide)
  qed
  have "of_int (int n * 3) / 4 = (of_nat n * 3 / 4 :: rat)" by simp
  then show ?thesis unfolding Math_floor_def m d by (rule arg_cong)
qed

section \<open>Properties of computeResize\<close>

lemma effective_bound_pos: "positive_bound b \<Longrightarrow> 0 < src \<Longrightarrow> 0 < effective_bound b src"
  by (auto simp: positive_bound_def effective_bound_def split: option.splits)

lemma cover_crop_width:
  assumes "0 < srcW" and "srcW \<le> 2 ^ 50" and "0 < srcH" and "0 < mw" and "0 < mh"
    and wider: "js_div (of_int mw) (of_int mh) < js_div (of_int srcW) (of_int srcH)"
  shows "0 \<le> Math_round (js_mul (of_int srcH) (js_div (of_int mw) (of_int mh)))
       \<and> Math_round (js_mul (of_int srcH) (js_div (of_int mw) (of_int mh))) \<le> srcW"
proof -
  let ?W = "of_int srcW :: rat" and ?H = "of_int srcH :: rat"
  let ?t = "js_div (of_int mw) (of_int mh)" and ?s = "js_div (of_int srcW) (of_int srcH)"
  let ?u = "1 + 1 / 2 ^ 53 :: rat"
  have W: "0 < ?W" "?W \<le> 2 ^ 50" and H: "0 < ?H"
    using assms(1,3) apply simp_all
    using assms(2) of_int_le_iff [of srcW "2 ^ 50", where 'a = rat] by simp
  have t: "0 < ?t" using assms(4,5) by (simp add: js_div_pos)
  have "?s \<le> ?W / ?H * ?u" unfolding js_div_def using W(1) H by (intro fl_upper) simp
  then have "?H * ?s \<le> ?H * (?W / ?H * ?u)" using H by (intro mult_left_mono) simp_all
  also have "\<dots> = ?W * ?u" using H by simp
  finally have Hs: "?H * ?s \<le> ?W * ?u" .
  have "?H * ?t < ?H * ?s" using wider H by (intro mult_strict_left_mono)
  with Hs have p: "?H * ?t < ?W * ?u" by linarith
  have ppos: "0 < ?H * ?t" using H t by (intro mult_pos_pos)
  have "fl (?H * ?t) \<le> ?H * ?t * ?u" using ppos by (rule fl_upper)
  also have "\<dots> < ?W * ?u * ?u" using p by (intro mult_strict_right_mono) simp_all
  also have "\<dots> < ?W + 1 / 2" using W by (rule two_roundings)
  finally have "fl (?H * ?t) < ?W + 1 / 2" .
  then have "Math_round (js_mul ?H ?t) \<le> srcW" unfolding js_mul_def by (rule round_le)
  moreover have "0 \<le> Math_round (js_mul ?H ?t)"
    unfolding js_mul_def using fl_pos [OF ppos] by (intro round_nonneg) simp
  ultimately show ?thesis by simp
qed

lemma cover_crop_height:
  assumes "0 < srcW" and "0 < srcH" and "srcH \<le> 2 ^ 50" and "0 < mw" and "0 < mh"
    and taller: "js_div (of_int srcW) (of_int srcH) \<le> js_div (of_int mw) (of_int mh)"
  shows "0 \<le> Math_round (js_div (of_int srcW) (js_div (of_int mw) (of_int mh)))
       \<and> Math_round (js_div (of_int srcW) (js_div (of_int mw) (of_int mh))) \<le> srcH"
proof -
  let ?W = "of_int srcW :: rat" and ?H = "of_int srcH :: rat"
  let ?t = "js_div (of_int mw) (of_int mh)" and ?s = "js_div (of_int srcW) (of_int srcH)"
  let ?u = "1 + 1 / 2 ^ 53 :: rat" and ?l = "1 - 1 / 2 ^ 53 :: rat"
  have W: "0 < ?W" and H: "0 < ?H" "?H \<le> 2 ^ 50"
    using assms(1,2) apply simp_all
    using assms(3) of_int_le_iff [of srcH "2 ^ 50", where 'a = rat] by simp
  have l: "0 < ?l" by simp
  have lowpos: "0 < ?W / ?H * ?l" using W H(1) by (intro mult_pos_pos divide_pos_pos) simp_all
  have "?W / ?H * ?l \<le> ?s" unfolding js_div_def using W H(1) by (intro fl_lower) simp
  with taller have low: "?W / ?H * ?l \<le> ?t" by linarith
  with lowpos have t: "0 < ?t" by linarith
  have qpos: "0 < ?W / ?t" using W t by simp
  have "?W / ?t \<le> ?W / (?W / ?H * ?l)"
    using low lowpos W by (intro divide_left_mono mult_pos_pos) simp_all
  also have "\<dots> = ?H / ?l" using W H(1) by simp
  finally have q: "?W / ?t \<le> ?H / ?l" .
  have "fl (?W / ?t) \<le> ?W / ?t * ?u" using qpos by (rule fl_upper)
  also have "\<dots> \<le> ?H / ?l * ?u" using q by (intro mult_right_mono) simp_all
  also have "\<dots> < ?H + 1 / 2" using H by (rule round_div_rounding)
  finally have "fl (?W / ?t) < ?H + 1 / 2" .
  then have "Math_round (js_div ?W ?t) \<le> srcH" unfolding js_div_def [of ?W] by (rule round_le)
  moreover have "0 \<le> Math_round (js_div ?W ?t)"
    unfolding js_div_def [of ?W] using fl_pos [OF qpos] by (intro round_nonneg) simp
  ultimately show ?thesis by simp
qed

lemma contain_no_upscale:
  assumes "0 < src" and "src \<le> 2 ^ 50" and "0 < scale" and "scale \<le> 1"
  shows "0 \<le> Math_round (js_mul (of_int src) scale)
       \<and> Math_round (js_mul (of_int src) scale) \<le> src"
proof -
  let ?W = "of_int src :: rat"
  let ?u = "1 + 1 / 2 ^ 53 :: rat"
  have W: "0 < ?W" "?W \<le> 2 ^ 50"
    using assms(1) apply simp
    using assms(2) of_int_le_iff [of src "2 ^ 50", where 'a = rat] by simp
  have ppos: "0 < ?W * scale" using W(1) assms(3) by (intro mult_pos_pos)
  have "?W * scale \<le> ?W * 1" using assms(4) W(1) by (intro mult_left_mono) simp_all
  then have p: "?W * scale \<le> ?W" by simp
  have "fl (?W * scale) \<le> ?W * scale * ?u" using ppos by (rule fl_upper)
  also have "\<dots> \<le> ?W * ?u" using p by (intro mult_right_mono) simp_all
  also have "\<dots> \<le> ?W * ?u * ?u" using W(1) by (simp add: mult_le_cancel_left1)
  also have "\<dots> < ?W + 1 / 2" using W by (rule two_roundings)
  finally have "fl (?W * scale) < ?W + 1 / 2" .
  then have "Math_round (js_mul ?W scale) \<le> src" unfolding js_mul_def by (rule round_le)
  moreover have "0 \<le> Math_round (js_mul ?W scale)"
    unfolding js_mul_def using fl_pos [OF ppos] by (intro round_nonneg) simp
  ultimately show ?thesis by simp
qed

lemma contain_constrained_side:
  assumes "0 < src" and "0 < bound"
  shows "1 \<le> Math_round (js_mul (of_int src) (js_div (of_int bound) (of_int src)))"
proof -
  let ?W = "of_int src :: rat" and ?B = "of_int bound :: rat"
  let ?l = "1 - 1 / 2 ^ 53 :: rat"
  have W: "0 < ?W" and B: "1 \<le> ?B" using assms by simp_all
  have apos: "0 < js_div ?B ?W" using W B by (intro js_div_pos) simp_all
  have "?B / ?W * ?l \<le> js_div ?B ?W" unfolding js_div_def using W B by (intro fl_lower) simp
  then have "?W * (?B / ?W * ?l) \<le> ?W * js_div ?B ?W" using W by (intro mult_left_mono) simp_all
  moreover have "?W * (?B / ?W * ?l) = ?B * ?l" using W by simp
  ultimately have p: "?B * ?l \<le> ?W * js_div ?B ?W" by simp
  have "1 * ?l \<le> ?B * ?l" using B by (intro mult_right_mono) simp_all
  with p have p1: "?l \<le> ?W * js_div ?B ?W" by simp
  have ppos: "0 < ?W * js_div ?B ?W" using W apos by (intro mult_pos_pos)
  have "?l * ?l \<le> ?W * js_div ?B ?W * ?l" using p1 by (intro mult_right_mono) simp_all
  also have "\<dots> \<le> fl (?W * js_div ?B ?W)" using ppos by (rule fl_lower)
  finally have "1 / 2 \<le> fl (?W * js_div ?B ?W)" by simp
  then show ?thesis unfolding js_mul_def by (rule round_ge_one)
qed

lemma effective_bound_case:
  "(case b of None \<Rightarrow> src | Some v \<Rightarrow> v) = effective_bound b src"
  by (simp add: effective_bound_def)

lemma contain_shape:
  "computeResize srcW srcH maxW maxH Contain =
     \<lparr>width = Math_round (js_mul (of_int srcW)
               (double_scale srcW srcH (effective_bound maxW srcW) (effective_bound maxH srcH))),
      height = Math_round (js_mul (of_int srcH)
               (double_scale srcW srcH (effective_bound maxW srcW) (effective_bound maxH srcH))),
      sx = 0, sy = 0, sWidth = srcW, sHeight = srcH\<rparr>"
  by (simp add: computeResize_def double_scale_def effective_bound_case Let_def)

lemma double_scale_range:
  assumes "0 < srcW" and "0 < srcH" and "0 < bw" and "0 < bh"
  shows "0 < double_scale srcW srcH bw bh \<and> double_scale srcW srcH bw bh \<le> 1"
proof -
  have "0 < js_div (of_int bw) (of_int srcW)" "0 < js_div (of_int bh) (of_int srcH)"
    using assms by (simp_all add: js_div_pos)
  then show ?thesis by (simp add: double_scale_def)
qed


lemma cover_sampling:
  assumes "0 < srcW" and "srcW \<le> 2 ^ 50" and "0 < srcH" and "srcH \<le> 2 ^ 50"
    and "0 < bw" and "0 < bh"
  defines "wider \<equiv> js_div (of_int bw) (of_int bh) < js_div (of_int srcW) (of_int srcH)"
  defines "cw \<equiv> (if wider then Math_round (js_mul (of_int srcH) (js_div (of_int bw) (of_int bh)))
                  else srcW)"
  defines "ch \<equiv> (if wider then srcH
                  else Math_round (js_div (of_int srcW) (js_div (of_int bw) (of_int bh))))"
  shows "0 \<le> cw \<and> cw \<le> srcW \<and> 0 \<le> ch \<and> ch \<le> srcH
       \<and> Math_floor (js_div (js_sub (of_int srcW) (of_int cw)) 2) = (srcW - cw) div 2
       \<and> Math_floor (js_div (js_sub (of_int srcH) (of_int ch)) 2) = (srcH - ch) div 2"
proof -
  have big: "srcW < 2 ^ 53" "srcH < 2 ^ 53" using assms(2,4) by simp_all
  have c: "0 \<le> cw \<and> cw \<le> srcW \<and> 0 \<le> ch \<and> ch \<le> srcH"
  proof (cases wider)
    case True
    with cover_crop_width [OF assms(1,2,3,5,6)] assms(3) show ?thesis
      by (simp add: cw_def ch_def wider_def)
  next
    case False
    then have "js_div (of_int srcW) (of_int srcH) \<le> js_div (of_int bw) (of_int bh)"
      by (simp add: wider_def)
    from cover_crop_height [OF assms(1,3,4,5,6) this] False assms(1) show ?thesis
      by (simp add: cw_def ch_def)
  qed
  moreover from c big have "Math_floor (js_div (js_sub (of_int srcW) (of_int cw)) 2) = (srcW - cw) div 2"
    by (intro centred_offset) simp_all
  moreover from c big have "Math_floor (js_div (js_sub (of_int srcH) (of_int ch)) 2) = (srcH - ch) div 2"
    by (intro centred_offset) simp_all
  ultimately show ?thesis by simp
qed

lemma floor_half: "\<lfloor>(of_int d / 2 :: rat)\<rfloor> = d div 2"
  using floor_divide_of_int_eq [of d 2, where 'a = rat] by simp


lemma example_cover:
  "computeResize 4000 2000 (Some 1000) (Some 1000) Cover =
     \<lparr>width = 1000, height = 1000, sx = 1000, sy = 0, sWidth = 2000, sHeight = 2000\<rparr>"
  by code_simp

lemma example_flat:
  "computeResize 4 1 (Some 1) None Contain =
     \<lparr>width = 1, height = 0, sx = 0, sy = 0, sWidth = 4, sHeight = 1\<rparr>"
  by code_simp

lemma min3_cases:
  "min a (min b c) = a \<or> min a (min b c) = b \<or> min a (min b c) = (c::rat)"
  by (simp add: min_def)

lemma round_of_int: "Math_round (of_int n) = n"
  unfolding Math_round_def by (rule floor_unique) simp_all

lemma cover_shape:
  assumes "0 < srcW" and "srcW \<le> 2 ^ 50" and "0 < srcH" and "srcH \<le> 2 ^ 50"
    and "positive_bound maxW" and "positive_bound maxH"
  shows "\<exists>cw ch. 0 \<le> cw \<and> cw \<le> srcW \<and> 0 \<le> ch \<and> ch \<le> srcH
     \<and> computeResize srcW srcH maxW maxH Cover =
         \<lparr>width = effective_bound maxW srcW, height = effective_bound maxH srcH,
          sx = (srcW - cw) div 2, sy = (srcH - ch) div 2, sWidth = cw, sHeight = ch\<rparr>"
proof -
  let ?bw = "effective_bound maxW srcW" and ?bh = "effective_bound maxH srcH"
  let ?wider = "js_div (of_int ?bw) (of_int ?bh) < js_div (of_int srcW) (of_int srcH)"
  let ?cw = "if ?wider then Math_round (js_mul (of_int srcH) (js_div (of_int ?bw) (of_int ?bh)))
             else srcW"
  let ?ch = "if ?wider then srcH
             else Math_round (js_div (of_int srcW) (js_div (of_int ?bw) (of_int ?bh)))"
  have bw: "0 < ?bw" and bh: "0 < ?bh" using assms by (simp_all add: effective_bound_pos)
  note facts = cover_sampling [OF assms(1-4) bw bh]
  then have "computeResize srcW srcH maxW maxH Cover =
         \<lparr>width = ?bw, height = ?bh,
          sx = (srcW - ?cw) div 2, sy = (srcH - ?ch) div 2, sWidth = ?cw, sHeight = ?ch\<rparr>"
    by (simp add: computeResize_def effective_bound_case Let_def del: of_int_diff)
  with facts show ?thesis by blast
qed


subsection \<open>Double rounding against exact arithmetic\<close>

lemma rounding_constants:
  "(1 + 1 / 2 ^ 53) * (1 + 1 / 2 ^ 53) \<le> (1 + 2 / (2 ^ 53 - 1) :: rat)"
  "(1 - 2 / (2 ^ 53 - 1) :: rat) \<le> (1 - 1 / 2 ^ 53) * (1 - 1 / 2 ^ 53)"
  "(1 + 1 / 2 ^ 53) / (1 - 1 / 2 ^ 53) \<le> (1 + 2 / (2 ^ 53 - 1) :: rat)"
  "(1 - 2 / (2 ^ 53 - 1) :: rat) \<le> (1 - 1 / 2 ^ 53) / (1 + 1 / 2 ^ 53)"
  by simp_all

lemma abs_err:
  assumes "0 \<le> y" and "y \<le> Y" and "0 \<le> k"
    and "y * lo \<le> v" and "v \<le> y * hi" and "1 - k \<le> lo" and "hi \<le> 1 + k"
  shows "\<bar>v - y\<bar> \<le> Y * (k::rat)"
proof -
  have yk: "y * k \<le> Y * k" using assms(2,3) by (rule mult_right_mono)
  have "y * hi \<le> y * (1 + k)" using assms(1,7) by (rule mult_left_mono [rotated])
  then have up: "v - y \<le> y * k" using assms(5) by (simp add: algebra_simps)
  have "y * (1 - k) \<le> y * lo" using assms(1,6) by (rule mult_left_mono [rotated])
  then have lo: "y - v \<le> y * k" using assms(4) by (simp add: algebra_simps)
  from up lo yk show ?thesis by (simp add: abs_le_iff)
qed

lemma product_rounded_twice:
  assumes "0 < X" and "0 < sg"
    and "sg * (1 - 1 / 2 ^ 53) \<le> s" and "s \<le> sg * (1 + 1 / 2 ^ 53)"
  shows "X * sg * ((1 - 1 / 2 ^ 53) * (1 - 1 / 2 ^ 53)) \<le> fl (X * s)
       \<and> fl (X * s) \<le> X * sg * ((1 + 1 / 2 ^ 53) * (1 + 1 / 2 ^ 53))"
proof -
  let ?l = "1 - 1 / 2 ^ 53 :: rat" and ?h = "1 + 1 / 2 ^ 53 :: rat"
  have l: "0 < ?l" and h: "0 < ?h" by simp_all
  have "0 < sg * ?l" using assms(2) l by (rule mult_pos_pos)
  with assms(3) have s: "0 < s" by linarith
  have z: "0 < X * s" using assms(1) s by (rule mult_pos_pos)
  have "X * (sg * ?l) \<le> X * s" using assms(1,3) by (intro mult_left_mono) simp_all
  then have "X * (sg * ?l) * ?l \<le> X * s * ?l" using l by (intro mult_right_mono) simp_all
  also have "\<dots> \<le> fl (X * s)" using z by (rule fl_lower)
  finally have L: "X * sg * (?l * ?l) \<le> fl (X * s)" by (simp add: mult.assoc)
  have "X * s \<le> X * (sg * ?h)" using assms(1,4) by (intro mult_left_mono) simp_all
  then have "X * s * ?h \<le> X * (sg * ?h) * ?h" using h by (intro mult_right_mono) simp_all
  moreover have "fl (X * s) \<le> X * s * ?h" using z by (rule fl_upper)
  ultimately have "fl (X * s) \<le> X * (sg * ?h) * ?h" by linarith
  then have U: "fl (X * s) \<le> X * sg * (?h * ?h)" by (simp add: mult.assoc)
  from L U show ?thesis by simp
qed

lemma quotient_rounded_twice:
  assumes "0 < W" and "0 < t"
    and "t * (1 - 1 / 2 ^ 53) \<le> ft" and "ft \<le> t * (1 + 1 / 2 ^ 53)"
  shows "W / t * ((1 - 1 / 2 ^ 53) / (1 + 1 / 2 ^ 53)) \<le> fl (W / ft)
       \<and> fl (W / ft) \<le> W / t * ((1 + 1 / 2 ^ 53) / (1 - 1 / 2 ^ 53))"
proof -
  let ?l = "1 - 1 / 2 ^ 53 :: rat" and ?h = "1 + 1 / 2 ^ 53 :: rat"
  have l: "0 < ?l" and h: "0 < ?h" by simp_all
  have tl: "0 < t * ?l" using assms(2) l by (rule mult_pos_pos)
  have th: "0 < t * ?h" using assms(2) h by (rule mult_pos_pos)
  from tl assms(3) have ft: "0 < ft" by linarith
  have z: "0 < W / ft" using assms(1) ft by simp
  have "W / (t * ?h) \<le> W / ft"
    using assms(1,4) ft by (intro divide_left_mono mult_pos_pos) simp_all
  then have "W / (t * ?h) * ?l \<le> W / ft * ?l" using l by (intro mult_right_mono) simp_all
  also have "\<dots> \<le> fl (W / ft)" using z by (rule fl_lower)
  finally have L: "W / t * (?l / ?h) \<le> fl (W / ft)" by simp
  have "W / ft \<le> W / (t * ?l)"
    using assms(1,3) tl ft by (intro divide_left_mono mult_pos_pos) simp_all
  then have "W / ft * ?h \<le> W / (t * ?l) * ?h" using h by (intro mult_right_mono) simp_all
  moreover have "fl (W / ft) \<le> W / ft * ?h" using z by (rule fl_upper)
  ultimately have "fl (W / ft) \<le> W / (t * ?l) * ?h" by linarith
  then have U: "fl (W / ft) \<le> W / t * (?h / ?l)" by simp
  from L U show ?thesis by simp
qed

lemma round_near:
  assumes "\<bar>p - x\<bar> < 1"
  shows "\<bar>Math_round p - \<lfloor>x + 1 / 2\<rfloor>\<bar> \<le> 1"
proof -
  let ?a = "\<lfloor>x + 1 / 2\<rfloor>" and ?b = "\<lfloor>p + 1 / 2\<rfloor>"
  have a: "of_int ?a \<le> x + 1 / 2" "x + 1 / 2 < of_int ?a + 1" by linarith+
  have b: "of_int ?b \<le> p + 1 / 2" "p + 1 / 2 < of_int ?b + 1" by linarith+
  from assms have c: "p - x < 1" "x - p < 1" by (simp_all add: abs_less_iff)
  from a b c have "(of_int ?a :: rat) < of_int ?b + 2" by linarith
  then have "(of_int ?a :: rat) < of_int (?b + 2)" by simp
  then have 1: "?a < ?b + 2" by (simp only: of_int_less_iff)
  from a b c have "(of_int ?b :: rat) < of_int ?a + 2" by linarith
  then have "(of_int ?b :: rat) < of_int (?a + 2)" by simp
  then have 2: "?b < ?a + 2" by (simp only: of_int_less_iff)
  from 1 2 show ?thesis by (simp add: Math_round_def abs_le_iff)
qed

lemma round_to_int:
  assumes "of_int n - 1 / 2 \<le> p" and "p < of_int n + 1 / 2"
  shows "Math_round p = n"
  unfolding Math_round_def using assms by (intro floor_unique) simp_all

lemma round_stable:
  assumes D: "0 < D" and int: "x * of_int D = of_int A"
    and tie: "\<not> halfway x" and close: "\<bar>p - x\<bar> < 1 / (2 * of_int D)"
  shows "Math_round p = \<lfloor>x + 1 / 2\<rfloor>"
proof -
  let ?k = "\<lfloor>x + 1 / 2\<rfloor>"
  let ?D = "of_int D :: rat"
  let ?m = "2 * ?D"
  have Dp: "0 < ?D" and mp: "0 < ?m" using D by simp_all
  have k1: "of_int ?k \<le> x + 1 / 2" and k2: "x + 1 / 2 < of_int ?k + 1" by linarith+
  from tie have ne: "of_int ?k \<noteq> x + 1 / 2" unfolding halfway_def .
  from k1 ne have k1': "of_int ?k < x + 1 / 2" by (rule le_neq_trans)
  have "(x + 1 / 2) * ?m = 2 * (x * ?D) + ?D" by (simp add: algebra_simps)
  also have "\<dots> = 2 * of_int A + ?D" by (simp only: int)
  finally have e: "(x + 1 / 2) * ?m = of_int (2 * A + D)" by simp
  have "of_int ?k * ?m < (x + 1 / 2) * ?m" using k1' mp by (rule mult_strict_right_mono)
  then have "(of_int (?k * (2 * D)) :: rat) < of_int (2 * A + D)" unfolding e by simp
  then have "?k * (2 * D) < 2 * A + D" by (simp only: of_int_less_iff)
  then have "?k * (2 * D) + 1 \<le> 2 * A + D" by simp
  then have "(of_int (?k * (2 * D) + 1) :: rat) \<le> of_int (2 * A + D)" by (simp only: of_int_le_iff)
  then have "of_int ?k * ?m + 1 \<le> (x + 1 / 2) * ?m" unfolding e by simp
  moreover have "(of_int ?k + 1 / ?m) * ?m = of_int ?k * ?m + 1"
    using Dp by (simp add: distrib_right)
  ultimately have "(of_int ?k + 1 / ?m) * ?m \<le> (x + 1 / 2) * ?m" by simp
  then have lo: "of_int ?k + 1 / ?m \<le> x + 1 / 2" using mp by (simp only: mult_le_cancel_right_pos)
  have "(x + 1 / 2) * ?m < (of_int ?k + 1) * ?m" using k2 mp by (rule mult_strict_right_mono)
  then have "(of_int (2 * A + D) :: rat) < of_int ((?k + 1) * (2 * D))" unfolding e by simp
  then have "2 * A + D < (?k + 1) * (2 * D)" by (simp only: of_int_less_iff)
  then have "2 * A + D + 1 \<le> (?k + 1) * (2 * D)" by simp
  then have "(of_int (2 * A + D + 1) :: rat) \<le> of_int ((?k + 1) * (2 * D))"
    by (simp only: of_int_le_iff)
  then have "of_int (2 * A + D) + 1 \<le> (of_int ?k + 1) * ?m" by simp
  then have "(x + 1 / 2) * ?m + 1 \<le> (of_int ?k + 1) * ?m" unfolding e .
  moreover have "(x + 1 / 2 + 1 / ?m) * ?m = (x + 1 / 2) * ?m + 1"
    using Dp by (simp add: distrib_right)
  ultimately have "(x + 1 / 2 + 1 / ?m) * ?m \<le> (of_int ?k + 1) * ?m" by simp
  then have hi: "x + 1 / 2 + 1 / ?m \<le> of_int ?k + 1" using mp by (simp only: mult_le_cancel_right_pos)
  from close have "x - 1 / ?m < p" "p < x + 1 / ?m" by (simp_all add: abs_less_iff)
  with lo hi have "of_int ?k - 1 / 2 \<le> p" "p < of_int ?k + 1 / 2" by linarith+
  then show ?thesis by (rule round_to_int)
qed






lemma err_half:
  assumes "0 \<le> Y" and "(Y::rat) \<le> 2 ^ 50"
  shows "Y * (2 / (2 ^ 53 - 1)) < 1 / 2"
proof -
  have "Y * (2 / (2 ^ 53 - 1)) \<le> 2 ^ 50 * (2 / (2 ^ 53 - 1))"
    using assms(2) by (intro mult_right_mono) simp_all
  also have "\<dots> < 1 / 2" by simp
  finally show ?thesis .
qed

lemma near_below:
  assumes "0 < Y" and "(Y::rat) \<le> 2 ^ 50" and "Y * r \<le> v" and "1 - 2 / (2 ^ 53 - 1) \<le> r"
  shows "Y - 1 / 2 < v"
proof -
  have "Y * (1 - 2 / (2 ^ 53 - 1)) \<le> Y * r" using assms(1,4) by (intro mult_left_mono) simp_all
  then have "Y - Y * (2 / (2 ^ 53 - 1)) \<le> v" using assms(3) by (simp add: algebra_simps)
  with err_half [of Y] assms(1,2) show ?thesis by simp
qed

lemma round_ge:
  assumes "of_int n - 1 / 2 \<le> p"
  shows "n \<le> Math_round p"
proof -
  have "of_int n \<le> p + 1 / 2" using assms by simp
  then show ?thesis by (simp only: Math_round_def le_floor_iff)
qed

lemma floor_half_ge:
  assumes "of_int n - 1 / 2 \<le> (x::rat)"
  shows "n \<le> \<lfloor>x + 1 / 2\<rfloor>"
  using round_ge [OF assms] by (simp add: Math_round_def)

lemma floor_half_le:
  assumes "(x::rat) < of_int n + 1 / 2"
  shows "\<lfloor>x + 1 / 2\<rfloor> \<le> n"
  using round_le [OF assms] by (simp add: Math_round_def)

lemma below_half:
  fixes Y r v c :: rat
  assumes "0 < Y" and "Y * c < 1 / 2" and "Y * r \<le> v" and "1 - c \<le> r"
  shows "Y - 1 / 2 \<le> v"
proof -
  have "Y * (1 - c) \<le> Y * r" using assms(1,4) by (intro mult_left_mono) simp_all
  then have "Y - Y * c \<le> Y * r" by (simp add: right_diff_distrib)
  with assms(2,3) show ?thesis by linarith
qed

lemma crop_width_abs:
  fixes W H a t fa ft p l h c :: rat
  assumes W: "0 < W" and H: "0 < H" and Ha: "H * a = W" and t: "0 < t"
    and l: "0 < l" and h: "0 < h"
    and fa: "a * l \<le> fa" "fa \<le> a * h" and ft: "t * l \<le> ft" "ft \<le> t * h"
    and p: "H * t * (l * l) \<le> p" "p \<le> H * t * (h * h)"
    and c: "0 \<le> c" "1 - c \<le> l * l" "h * h \<le> 1 + c" "1 - c \<le> l / h"
    and small: "W * c < 1 / 2"
  shows "t < a \<Longrightarrow> \<bar>p - H * t\<bar> \<le> W * c"
    and "\<not> t < a \<Longrightarrow> W - 1 / 2 \<le> p"
    and "\<not> ft < fa \<Longrightarrow> t < a \<Longrightarrow> W - 1 / 2 \<le> H * t \<and> H * t < W + 1 / 2"
proof -
  have x0: "0 \<le> H * t" using mult_pos_pos [OF H t] by (rule less_imp_le)
  {
    assume "t < a"
    then have "H * t < H * a" using H by (rule mult_strict_left_mono)
    then have xW: "H * t \<le> W" unfolding Ha by (rule less_imp_le)
    from abs_err [OF x0 xW c(1) p c(2) c(3)] show "\<bar>p - H * t\<bar> \<le> W * c" .
  }
  {
    assume "\<not> t < a"
    then have "a \<le> t" by simp
    then have "H * a \<le> H * t" using H by (intro mult_left_mono) simp_all
    then have "W \<le> H * t" unfolding Ha .
    then have "W * (l * l) \<le> H * t * (l * l)" using l by (intro mult_right_mono) simp_all
    from this p(1) have "W * (l * l) \<le> p" by (rule order_trans)
    from below_half [OF W small this c(2)] show "W - 1 / 2 \<le> p" .
  }
  {
    assume dn: "\<not> ft < fa" and e: "t < a"
    have "H * t < H * a" using e H by (rule mult_strict_left_mono)
    then have up: "H * t < W + 1 / 2" unfolding Ha by simp
    from dn fa(1) ft(2) have "a * l \<le> t * h" by linarith
    then have "H * (a * l) \<le> H * (t * h)" using H by (intro mult_left_mono) simp_all
    then have "W * l \<le> H * t * h" by (simp only: mult.assoc [symmetric] Ha)
    then have "W * l / h \<le> H * t * h / h" using h by (intro divide_right_mono) simp_all
    then have "W * (l / h) \<le> H * t" using h by simp
    from below_half [OF W small this c(4)] up
    show "W - 1 / 2 \<le> H * t \<and> H * t < W + 1 / 2" by simp
  }
qed

lemma crop_height_abs:
  fixes W H a t fa ft q l h c :: rat
  assumes W: "0 < W" and H: "0 < H" and Ha: "H * a = W" and t: "0 < t"
    and l: "0 < l" and h: "0 < h"
    and fa: "a * l \<le> fa" "fa \<le> a * h" and ft: "t * l \<le> ft" "ft \<le> t * h"
    and q: "W / t * (l / h) \<le> q" "q \<le> W / t * (h / l)"
    and c: "0 \<le> c" "1 - c \<le> l / h" "h / l \<le> 1 + c"
    and small: "H * c < 1 / 2"
  shows "\<not> t < a \<Longrightarrow> \<bar>q - W / t\<bar> \<le> H * c"
    and "ft < fa \<Longrightarrow> \<not> t < a \<Longrightarrow> H - 1 / 2 \<le> W / t \<and> W / t < H + 1 / 2"
    and "t < a \<Longrightarrow> H - 1 / 2 \<le> q"
proof -
  have a: "0 < a"
  proof (rule ccontr)
    assume "\<not> 0 < a"
    then have "a \<le> 0" by simp
    then have "H * a \<le> 0" using H by (simp add: mult_le_0_iff)
    with Ha W show False by simp
  qed
  have Wa: "W / a = H" using Ha a by (simp add: field_simps)
  have y0: "0 \<le> W / t" using W t by simp
  have lh: "0 < l / h" using l h by simp
  {
    assume "\<not> t < a"
    then have "a \<le> t" by simp
    then have "W / t \<le> W / a" using W a by (intro divide_left_mono mult_pos_pos) simp_all
    then have yH: "W / t \<le> H" unfolding Wa .
    from abs_err [OF y0 yH c(1) q c(2) c(3)] show "\<bar>q - W / t\<bar> \<le> H * c" .
  }
  {
    assume dw: "ft < fa" and e: "\<not> t < a"
    then have "a \<le> t" by simp
    then have "W / t \<le> W / a" using W a by (intro divide_left_mono mult_pos_pos) simp_all
    then have up: "W / t < H + 1 / 2" unfolding Wa by simp
    from dw ft(1) fa(2) have "t * l \<le> a * h" by linarith
    then have "t * l / h \<le> a * h / h" using h by (intro divide_right_mono) simp_all
    then have tl: "t * (l / h) \<le> a" using h by simp
    have "H * (t * (l / h)) \<le> H * a" using tl H by (intro mult_left_mono) simp_all
    then have "H * (l / h) * t \<le> W" unfolding Ha by (simp add: mult_ac)
    then have "H * (l / h) * t / t \<le> W / t" using t by (intro divide_right_mono) simp_all
    then have "H * (l / h) \<le> W / t" using t by simp
    from below_half [OF H small this c(2)] up
    show "H - 1 / 2 \<le> W / t \<and> W / t < H + 1 / 2" by simp
  }
  {
    assume e: "t < a"
    then have "W / a \<le> W / t" using W t by (intro divide_left_mono mult_pos_pos) simp_all
    then have "H \<le> W / t" unfolding Wa .
    then have "H * (l / h) \<le> W / t * (l / h)" using lh by (intro mult_right_mono) simp_all
    from this q(1) have "H * (l / h) \<le> q" by (rule order_trans)
    from below_half [OF H small this c(2)] show "H - 1 / 2 \<le> q" .
  }
qed

lemma crop_width_rel:
  assumes W: "0 < srcW" "srcW \<le> 2 ^ 50" and H: "0 < srcH" and bw: "0 < bw" and bh: "0 < bh"
  shows "\<bar>fst (double_crop srcW srcH bw bh) - fst (exact_crop srcW srcH bw bh)\<bar> \<le> 1
     \<and> (srcW \<le> 2 ^ 16 \<and> bh \<le> 2 ^ 16
          \<and> \<not> halfway (of_int srcH * (of_int bw / of_int bh)) \<longrightarrow>
        fst (double_crop srcW srcH bw bh) = fst (exact_crop srcW srcH bw bh))"
proof -
  let ?W = "of_int srcW :: rat" and ?H = "of_int srcH :: rat"
  let ?a = "?W / ?H" and ?t = "of_int bw / of_int bh :: rat"
  let ?fa = "js_div ?W ?H" and ?ft = "js_div (of_int bw) (of_int bh)"
  let ?l = "1 - 1 / 2 ^ 53 :: rat" and ?h = "1 + 1 / 2 ^ 53 :: rat"
  let ?c = "2 / (2 ^ 53 - 1) :: rat"
  let ?p = "js_mul ?H ?ft" and ?x = "?H * ?t"
  have Wr: "0 < ?W" and Hr: "0 < ?H" using W(1) H by simp_all
  have W50: "?W \<le> 2 ^ 50" using W(2) of_int_le_iff [of srcW "2 ^ 50", where 'a = rat] by simp
  have a: "0 < ?a" and t: "0 < ?t" using W(1) H bw bh by simp_all
  have Ha: "?H * ?a = ?W" using Hr by simp
  have l: "0 < ?l" and h: "0 < ?h" and k: "0 \<le> ?c" by simp_all
  have fa: "?a * ?l \<le> ?fa" "?fa \<le> ?a * ?h"
    unfolding js_div_def using a by (rule fl_lower, rule fl_upper)
  have ft: "?t * ?l \<le> ?ft" "?ft \<le> ?t * ?h"
    unfolding js_div_def using t by (rule fl_lower, rule fl_upper)
  note prod = product_rounded_twice [OF Hr t ft]
  have p1: "?x * (?l * ?l) \<le> ?p" and p2: "?p \<le> ?x * (?h * ?h)"
    unfolding js_mul_def using prod by blast+
  have small: "?W * ?c < 1 / 2" using Wr W50 by (intro err_half) simp_all
  note A = crop_width_abs [OF Wr Hr Ha t l h fa ft p1 p2 k rounding_constants(2)
      rounding_constants(1) rounding_constants(4) small]
  have dc: "fst (double_crop srcW srcH bw bh) = (if ?ft < ?fa then Math_round ?p else srcW)"
    by (simp add: double_crop_def Let_def)
  have ec: "fst (exact_crop srcW srcH bw bh) = (if ?t < ?a then \<lfloor>?x + 1 / 2\<rfloor> else srcW)"
    by (simp add: exact_crop_def Let_def)
  show ?thesis
  proof (cases "?ft < ?fa")
    case dw: True
    show ?thesis
    proof (cases "?t < ?a")
      case True
      note close = A(1) [OF True]
      with small have "\<bar>?p - ?x\<bar> < 1" by linarith
      then have near: "\<bar>Math_round ?p - \<lfloor>?x + 1 / 2\<rfloor>\<bar> \<le> 1" by (rule round_near)
      have eq: "Math_round ?p = \<lfloor>?x + 1 / 2\<rfloor>"
        if s: "srcW \<le> 2 ^ 16" "bh \<le> 2 ^ 16" and tie: "\<not> halfway ?x"
      proof -
        have "?W \<le> of_int (2 ^ 16)" using s(1) by (simp only: of_int_le_iff)
        then have "?W * ?c \<le> 2 ^ 16 * ?c" by (intro mult_right_mono) simp_all
        also have "\<dots> < 1 / 2 ^ 17" by simp
        finally have e: "\<bar>?p - ?x\<bar> < 1 / 2 ^ 17" using close by linarith
        define Dr where "Dr = (of_int bh :: rat)"
        have Dr0: "0 < Dr" unfolding Dr_def using bh by simp
        have "Dr \<le> of_int (2 ^ 16)" unfolding Dr_def using s(2) by (simp only: of_int_le_iff)
        then have "2 * Dr \<le> 2 ^ 17" by simp
        moreover have "0 < 2 * Dr" using Dr0 by simp
        ultimately have "1 / 2 ^ 17 \<le> 1 / (2 * Dr)"
          by (intro divide_left_mono mult_pos_pos) simp_all
        with e have c: "\<bar>?p - ?x\<bar> < 1 / (2 * of_int bh)" unfolding Dr_def by linarith
        have i: "?x * of_int bh = of_int (srcH * bw)" using bh by simp
        from round_stable [OF bh i tie c] show ?thesis .
      qed
      have "fst (double_crop srcW srcH bw bh) = Math_round ?p" unfolding dc using dw by simp
      moreover have "fst (exact_crop srcW srcH bw bh) = \<lfloor>?x + 1 / 2\<rfloor>"
        unfolding ec using True by simp
      ultimately show ?thesis using near eq by simp
    next
      case False
      from A(2) [OF False] have ge: "srcW \<le> Math_round ?p" by (rule round_ge)
      from cover_crop_width [OF W H bw bh dw] have "Math_round ?p \<le> srcW" by simp
      with ge have r: "Math_round ?p = srcW" by simp
      have "fst (double_crop srcW srcH bw bh) = srcW" unfolding dc using dw r by simp
      moreover have "fst (exact_crop srcW srcH bw bh) = srcW" unfolding ec using False by simp
      ultimately show ?thesis by simp
    qed
  next
    case dn: False
    have d: "fst (double_crop srcW srcH bw bh) = srcW" unfolding dc using dn by simp
    show ?thesis
    proof (cases "?t < ?a")
      case True
      from A(3) [OF dn True] have b: "?W - 1 / 2 \<le> ?x" "?x < ?W + 1 / 2" by simp_all
      from b(1) have "srcW \<le> \<lfloor>?x + 1 / 2\<rfloor>" by (rule floor_half_ge)
      moreover from b(2) have "\<lfloor>?x + 1 / 2\<rfloor> \<le> srcW" by (rule floor_half_le)
      ultimately have r: "\<lfloor>?x + 1 / 2\<rfloor> = srcW" by simp
      have "fst (exact_crop srcW srcH bw bh) = srcW" unfolding ec using True r by simp
      with d show ?thesis by simp
    next
      case False
      have "fst (exact_crop srcW srcH bw bh) = srcW" unfolding ec using False by simp
      with d show ?thesis by simp
    qed
  qed
qed

lemma crop_height_rel:
  assumes W: "0 < srcW" and H: "0 < srcH" "srcH \<le> 2 ^ 50" and bw: "0 < bw" and bh: "0 < bh"
  shows "\<bar>snd (double_crop srcW srcH bw bh) - snd (exact_crop srcW srcH bw bh)\<bar> \<le> 1
     \<and> (srcH \<le> 2 ^ 16 \<and> bw \<le> 2 ^ 16
          \<and> \<not> halfway (of_int srcW / (of_int bw / of_int bh)) \<longrightarrow>
        snd (double_crop srcW srcH bw bh) = snd (exact_crop srcW srcH bw bh))"
proof -
  let ?W = "of_int srcW :: rat" and ?H = "of_int srcH :: rat"
  let ?a = "?W / ?H" and ?t = "of_int bw / of_int bh :: rat"
  let ?fa = "js_div ?W ?H" and ?ft = "js_div (of_int bw) (of_int bh)"
  let ?l = "1 - 1 / 2 ^ 53 :: rat" and ?h = "1 + 1 / 2 ^ 53 :: rat"
  let ?c = "2 / (2 ^ 53 - 1) :: rat"
  let ?q = "js_div ?W ?ft" and ?x = "?W / ?t"
  have Wr: "0 < ?W" and Hr: "0 < ?H" using W H(1) by simp_all
  have H50: "?H \<le> 2 ^ 50" using H(2) of_int_le_iff [of srcH "2 ^ 50", where 'a = rat] by simp
  have a: "0 < ?a" and t: "0 < ?t" using W H(1) bw bh by simp_all
  have Ha: "?H * ?a = ?W" using Hr by simp
  have l: "0 < ?l" and h: "0 < ?h" and k: "0 \<le> ?c" by simp_all
  have fa: "?a * ?l \<le> ?fa" "?fa \<le> ?a * ?h"
    unfolding js_div_def using a by (rule fl_lower, rule fl_upper)
  have ft: "?t * ?l \<le> ?ft" "?ft \<le> ?t * ?h"
    unfolding js_div_def using t by (rule fl_lower, rule fl_upper)
  note quot = quotient_rounded_twice [OF Wr t ft]
  have q1: "?x * (?l / ?h) \<le> ?q" and q2: "?q \<le> ?x * (?h / ?l)"
    unfolding js_div_def [of ?W] using quot by blast+
  have small: "?H * ?c < 1 / 2" using Hr H50 by (intro err_half) simp_all
  note A = crop_height_abs [OF Wr Hr Ha t l h fa ft q1 q2 k rounding_constants(4)
      rounding_constants(3) small]
  have dc: "snd (double_crop srcW srcH bw bh) = (if ?ft < ?fa then srcH else Math_round ?q)"
    by (simp add: double_crop_def Let_def)
  have ec: "snd (exact_crop srcW srcH bw bh) = (if ?t < ?a then srcH else \<lfloor>?x + 1 / 2\<rfloor>)"
    by (simp add: exact_crop_def Let_def)
  show ?thesis
  proof (cases "?ft < ?fa")
    case dw: True
    have d: "snd (double_crop srcW srcH bw bh) = srcH" unfolding dc using dw by simp
    show ?thesis
    proof (cases "?t < ?a")
      case True
      have "snd (exact_crop srcW srcH bw bh) = srcH" unfolding ec using True by simp
      with d show ?thesis by simp
    next
      case False
      from A(2) [OF dw False] have b: "?H - 1 / 2 \<le> ?x" "?x < ?H + 1 / 2" by simp_all
      from b(1) have "srcH \<le> \<lfloor>?x + 1 / 2\<rfloor>" by (rule floor_half_ge)
      moreover from b(2) have "\<lfloor>?x + 1 / 2\<rfloor> \<le> srcH" by (rule floor_half_le)
      ultimately have r: "\<lfloor>?x + 1 / 2\<rfloor> = srcH" by simp
      have "snd (exact_crop srcW srcH bw bh) = srcH" unfolding ec using False r by simp
      with d show ?thesis by simp
    qed
  next
    case dn: False
    then have taller: "?fa \<le> ?ft" by simp
    have d: "snd (double_crop srcW srcH bw bh) = Math_round ?q" unfolding dc using dn by simp
    show ?thesis
    proof (cases "?t < ?a")
      case True
      from A(3) [OF True] have ge: "srcH \<le> Math_round ?q" by (rule round_ge)
      from cover_crop_height [OF W H bw bh taller] have "Math_round ?q \<le> srcH" by simp
      with ge have r: "Math_round ?q = srcH" by simp
      have "snd (exact_crop srcW srcH bw bh) = srcH" unfolding ec using True by simp
      with d r show ?thesis by simp
    next
      case False
      note close = A(1) [OF False]
      with small have "\<bar>?q - ?x\<bar> < 1" by linarith
      then have near: "\<bar>Math_round ?q - \<lfloor>?x + 1 / 2\<rfloor>\<bar> \<le> 1" by (rule round_near)
      have eq: "Math_round ?q = \<lfloor>?x + 1 / 2\<rfloor>"
        if s: "srcH \<le> 2 ^ 16" "bw \<le> 2 ^ 16" and tie: "\<not> halfway ?x"
      proof -
        have "?H \<le> of_int (2 ^ 16)" using s(1) by (simp only: of_int_le_iff)
        then have "?H * ?c \<le> 2 ^ 16 * ?c" by (intro mult_right_mono) simp_all
        also have "\<dots> < 1 / 2 ^ 17" by simp
        finally have e: "\<bar>?q - ?x\<bar> < 1 / 2 ^ 17" using close by linarith
        define Dr where "Dr = (of_int bw :: rat)"
        have Dr0: "0 < Dr" unfolding Dr_def using bw by simp
        have "Dr \<le> of_int (2 ^ 16)" unfolding Dr_def using s(2) by (simp only: of_int_le_iff)
        then have "2 * Dr \<le> 2 ^ 17" by simp
        moreover have "0 < 2 * Dr" using Dr0 by simp
        ultimately have "1 / 2 ^ 17 \<le> 1 / (2 * Dr)"
          by (intro divide_left_mono mult_pos_pos) simp_all
        with e have c: "\<bar>?q - ?x\<bar> < 1 / (2 * of_int bw)" unfolding Dr_def by linarith
        have i: "?x * of_int bw = of_int (srcW * bh)" using bw bh by simp
        from round_stable [OF bw i tie c] show ?thesis .
      qed
      have "snd (exact_crop srcW srcH bw bh) = \<lfloor>?x + 1 / 2\<rfloor>" unfolding ec using False by simp
      with d near eq show ?thesis by simp
    qed
  qed
qed

lemma cover_explicit:
  assumes "0 < srcW" and "srcW \<le> 2 ^ 50" and "0 < srcH" and "srcH \<le> 2 ^ 50"
    and "positive_bound maxW" and "positive_bound maxH"
  shows "computeResize srcW srcH maxW maxH Cover =
     (let c = double_crop srcW srcH (effective_bound maxW srcW) (effective_bound maxH srcH)
      in \<lparr>width = effective_bound maxW srcW, height = effective_bound maxH srcH,
          sx = (srcW - fst c) div 2, sy = (srcH - snd c) div 2,
          sWidth = fst c, sHeight = snd c\<rparr>)"
proof -
  have bw: "0 < effective_bound maxW srcW" and bh: "0 < effective_bound maxH srcH"
    using assms by (simp_all add: effective_bound_pos)
  from cover_sampling [OF assms(1-4) bw bh] show ?thesis
    by (simp add: computeResize_def double_crop_def effective_bound_case Let_def
        del: of_int_diff)
qed

lemma cover_spec_crop:
  "cover_spec srcW srcH maxW maxH =
     (let c = exact_crop srcW srcH (effective_bound maxW srcW) (effective_bound maxH srcH)
      in \<lparr>width = effective_bound maxW srcW, height = effective_bound maxH srcH,
          sx = (srcW - fst c) div 2, sy = (srcH - snd c) div 2,
          sWidth = fst c, sHeight = snd c\<rparr>)"
  by (simp add: cover_spec_def exact_crop_def Let_def)


lemma tie_cover:
  "computeResize 10 49 (Some 1) (Some 98) Cover =
     \<lparr>width = 1, height = 98, sx = 5, sy = 0, sWidth = 0, sHeight = 49\<rparr>"
  "cover_spec 10 49 (Some 1) (Some 98) =
     \<lparr>width = 1, height = 98, sx = 4, sy = 0, sWidth = 1, sHeight = 49\<rparr>"
  by code_simp+

lemma example_specs:
  "contain_spec 4000 2000 (Some 1000) (Some 1000) =
     \<lparr>width = 1000, height = 500, sx = 0, sy = 0, sWidth = 4000, sHeight = 2000\<rparr>"
  "cover_spec 4000 2000 (Some 1000) (Some 1000) =
     \<lparr>width = 1000, height = 1000, sx = 1000, sy = 0, sWidth = 2000, sHeight = 2000\<rparr>"
  by code_simp+

section \<open>Properties of the conversion pipeline\<close>

lemma bind_mem:
  "c \<in> set (fst (bind m f)) \<Longrightarrow>
     c \<in> set (fst m) \<or> (\<exists>x. snd m = Inr x \<and> c \<in> set (fst (f x)))"
  by (auto simp: bind_def split: prod.splits sum.splits)

lemma bind_Inr:
  "bind m f = (t, Inr y) \<longleftrightarrow>
     (\<exists>t1 x t2. m = (t1, Inr x) \<and> f x = (t2, Inr y) \<and> t = t1 @ t2)"
  by (auto simp: bind_def split: prod.splits sum.splits)

lemma bind_call_Inl: "bind (call c (Inl e)) f = ([c], Inl e)"
  by (simp add: bind_def call_def)

lemma bind_call_Inr: "bind (call c (Inr x)) f = (c # fst (f x), snd (f x))"
  by (simp add: bind_def call_def split: prod.splits)

lemma catch_mem:
  "c \<in> set (fst (catch m h)) \<Longrightarrow>
     c \<in> set (fst m) \<or> (\<exists>e. snd m = Inl e \<and> c \<in> set (fst (h e)))"
  by (auto simp: catch_def split: prod.splits sum.splits)

lemma passthrough_eq:
  "passthrough env file =
     ([CallReadAsDataURL (fileBlob file)],
      case readAsDataURL env (fileBlob file) of
        Inl e \<Rightarrow> Inl e
      | Inr d \<Rightarrow> Inr \<lparr>dataUrl = d, mime = extractMimeFromDataUrl d,
                     sizeBytes = estimateBase64SizeBytes d,
                     resultWidth = None, resultHeight = None, fileName = name file\<rparr>)"
  by (simp add: passthrough_def readFileAsDataURL_def bind_def call_def ret_def
      split: sum.splits)

lemma encode_in_canvasToDataURL:
  "CallEncode k m q \<in> set (fst (canvasToDataURL env canvas type q')) \<Longrightarrow> m = type"
  by (auto simp: canvasToDataURL_def call_def readFileAsDataURL_def dest!: bind_mem
      split: if_splits)

lemma canvasToDataURL_Inr:
  "canvasToDataURL env canvas type q = (t, Inr d) \<Longrightarrow> \<exists>k. CallEncode k type q \<in> set t"
  by (auto simp: canvasToDataURL_def call_def readFileAsDataURL_def bind_Inr
      split: if_splits)

lemma via_encode:
  assumes "CallEncode k m q \<in> set (fst (convertViaCanvas env file options om tm))"
  shows "m = clampCanvasMime tm"
  using assms unfolding convertViaCanvas_def Let_def
  by (auto dest!: bind_mem catch_mem encode_in_canvasToDataURL
      simp: readFileAsArrayBuffer_def blobToImageBitmap_def call_def throw_def ret_def
        imageElementFallback_def createCanvas_def draw_def split: if_splits)

lemma via_head:
  "\<exists>t. fst (convertViaCanvas env file options om tm) = CallArrayBuffer file # t"
  unfolding convertViaCanvas_def readFileAsArrayBuffer_def
  by (cases "arrayBuffer env file") (simp_all add: bind_call_Inl bind_call_Inr)

lemma bind_InrE:
  assumes "bind m f = (t, Inr y)"
  obtains t1 x t2 where "m = (t1, Inr x)" and "f x = (t2, Inr y)" and "t = t1 @ t2"
  using assms by (auto simp: bind_Inr)

lemma via_Inr:
  assumes "convertViaCanvas env file options om tm = (t, Inr res)"
  shows "(\<exists>w h. resultWidth res = Some w \<and> resultHeight res = Some h)
         \<and> (\<exists>k q. CallEncode k (clampCanvasMime tm) q \<in> set t)
         \<and> mime res = extractMimeFromDataUrl (dataUrl res)
         \<and> fileName res = name file"
  using assms unfolding convertViaCanvas_def Let_def
  apply (elim bind_InrE)
  apply (drule canvasToDataURL_Inr)
  apply (auto simp: ret_def)
  done

lemma catch_decode_called:
  assumes "catch (blobToImageBitmap env blob) h = (t, r)"
  shows "CallCreateImageBitmap blob \<in> set t"
  using assms
  by (auto simp: catch_def blobToImageBitmap_def call_def split: sum.splits prod.splits)

lemma via_Inr_decoded:
  assumes "convertViaCanvas env file options om tm = (t, Inr res)"
  shows "\<exists>buf. CallCreateImageBitmap \<lparr>blobType = om, blobBytes = buf\<rparr> \<in> set t"
  using assms unfolding convertViaCanvas_def Let_def
  apply (elim bind_InrE)
  apply (drule catch_decode_called)
  apply auto
  done

lemma via_decode_fails:
  assumes "CallCreateImageBitmap blob \<in> set (fst (convertViaCanvas env file options om tm))"
    and "createImageBitmap env blob = Inl err"
    and "\<not> isDomAvailable env"
  shows "\<exists>buf. arrayBuffer env file = Inr buf \<and> blob = \<lparr>blobType = om, blobBytes = buf\<rparr> \<and>
     convertViaCanvas env file options om tm =
       ([CallArrayBuffer file, CallCreateImageBitmap blob], Inl err)"
proof (cases "arrayBuffer env file")
  case (Inl e)
  with assms(1) show ?thesis
    by (simp add: convertViaCanvas_def readFileAsArrayBuffer_def bind_call_Inl)
next
  case (Inr buf)
  let ?b = "\<lparr>blobType = om, blobBytes = buf\<rparr>"
  have eq: "blob = ?b"
    using assms(1) Inr unfolding convertViaCanvas_def Let_def
    by (auto dest!: bind_mem catch_mem encode_in_canvasToDataURL
      simp: readFileAsArrayBuffer_def blobToImageBitmap_def call_def throw_def ret_def
        imageElementFallback_def createCanvas_def draw_def canvasToDataURL_def
        readFileAsDataURL_def split: if_splits)
  have "convertViaCanvas env file options om tm =
       ([CallArrayBuffer file, CallCreateImageBitmap blob], Inl err)"
    using assms(2,3) Inr eq
    by (simp add: convertViaCanvas_def readFileAsArrayBuffer_def bind_call_Inr
        blobToImageBitmap_def catch_def call_def throw_def bind_def)
  with Inr eq show ?thesis by simp
qed

lemma convert_cases:
  "convertFileToBase64 env file options = passthrough env file
   \<or> convertFileToBase64 env file options =
       convertViaCanvas env file options (orElse (fileType file) ''application/octet-stream'')
         (normalizeTargetMime (orElse (fileType file) ''application/octet-stream'')
            (targetFormat options))"
  by (simp add: convertFileToBase64_def Let_def)

lemma indexOf_append: "c \<notin> set p \<Longrightarrow> indexOf (p @ c # r) c = int (length p)"
  by (induction p) (auto simp: Let_def)

lemma sliceFrom_after:
  assumes "c \<notin> set p"
  shows "sliceFrom (p @ c # r) (indexOf (p @ c # r) c + 1) = r"
proof -
  have "sliceFrom (p @ c # r) (int (length p) + 1) = drop (Suc (length p)) (p @ c # r)"
    by (simp add: sliceFrom_drop nat_add_distrib)
  then show ?thesis by (simp add: indexOf_append [OF assms])
qed

lemma extract_header:
  assumes "m \<noteq> []" and "CHR '';'' \<notin> set m"
  shows "extractMimeFromDataUrl (''data:'' @ m @ CHR '';'' # rest) = m"
proof -
  have "CHR '';'' \<notin> set (''data:'' @ m)" using assms(2) by simp
  from indexOf_append [OF this, of rest]
  have idx: "indexOf (''data:'' @ m @ CHR '';'' # rest) (CHR '';'') = 5 + int (length m)"
    by simp
  have gt: "5 + int (length m) > 5" using assms(1) by simp
  have sw: "startsWith (''data:'' @ m @ CHR '';'' # rest) ''data:''"
    by (simp add: startsWith_def)
  have sl: "slice (''data:'' @ m @ CHR '';'' # rest) 5 (5 + int (length m)) = m"
    by (simp add: slice_def clampIndex_def Let_def nat_add_distrib)
  show ?thesis
    unfolding extractMimeFromDataUrl_def Let_def idx using gt sw sl by simp
qed

lemma extract_no_header:
  assumes "\<not> startsWith d ''data:'' \<or> CHR '';'' \<notin> set d"
  shows "extractMimeFromDataUrl d = ''application/octet-stream''"
proof -
  have "CHR '';'' \<notin> set d \<Longrightarrow> \<not> indexOf d (CHR '';'') > 5"
    using indexOf_neg_iff [of d "CHR '';''"] by simp
  with assms show ?thesis by (auto simp: extractMimeFromDataUrl_def Let_def)
qed

lemma extract_empty_type:
  "extractMimeFromDataUrl (''data:;'' @ rest) = ''application/octet-stream''"
  by (simp add: extractMimeFromDataUrl_def Let_def)

subsection \<open>Base64\<close>

lemma sextet_bounds:
  fixes a b c :: nat
  assumes "a < 256" and "b < 256" and "c < 256"
  shows "a div 4 < 64" and "a mod 4 * 16 + b div 16 < 64" and "b mod 16 * 4 + c div 64 < 64"
    and "c mod 64 < 64" and "a mod 4 * 16 < 64" and "b mod 16 * 4 < 64"
proof -
  have a4: "a mod 4 < 4" and b16: "b mod 16 < 16" by simp_all
  have bd: "b div 16 < 16" using assms(2) by (intro less_mult_imp_div_less) simp
  have cd: "c div 64 < 4" using assms(3) by (intro less_mult_imp_div_less) simp
  show "a div 4 < 64" using assms(1) by (intro less_mult_imp_div_less) simp
  define r where "r = a mod 4"
  define s where "s = b mod 16"
  define p where "p = b div 16"
  define q where "q = c div 64"
  from a4 b16 bd cd have "r < 4" "s < 16" "p < 16" "q < 4" by (simp_all add: r_def s_def p_def q_def)
  then have "r * 16 + p < 64" "s * 4 + q < 64" "r * 16 < 64" "s * 4 < 64" by simp_all
  then show "a mod 4 * 16 + b div 16 < 64" and "b mod 16 * 4 + c div 64 < 64"
    and "a mod 4 * 16 < 64" and "b mod 16 * 4 < 64"
    by (simp_all add: r_def s_def p_def q_def)
  show "c mod 64 < 64" by simp
qed

lemma sextet_bytes:
  fixes a b c :: nat
  assumes "b < 256" and "c < 256"
  shows "a div 4 * 4 + (a mod 4 * 16 + b div 16) div 16 = a"
    and "(a mod 4 * 16 + b div 16) mod 16 * 16 + (b mod 16 * 4 + c div 64) div 4 = b"
    and "(b mod 16 * 4 + c div 64) mod 4 * 64 + c mod 64 = c"
    and "a div 4 * 4 + (a mod 4 * 16) div 16 = a"
    and "(a mod 4 * 16 + b div 16) mod 16 * 16 + (b mod 16 * 4) div 4 = b"
proof -
  have bd: "b div 16 < 16" using assms(1) by (intro less_mult_imp_div_less) simp
  have cd: "c div 64 < 4" using assms(2) by (intro less_mult_imp_div_less) simp
  have 1: "(a mod 4 * 16 + b div 16) div 16 = a mod 4" using bd by simp
  have 2: "(a mod 4 * 16 + b div 16) mod 16 = b div 16" using bd by simp
  have 3: "(b mod 16 * 4 + c div 64) div 4 = b mod 16" using cd by simp
  have 4: "(b mod 16 * 4 + c div 64) mod 4 = c div 64" using cd by simp
  have 5: "(a mod 4 * 16) div 16 = a mod 4" by simp
  have 6: "(b mod 16 * 4) div 4 = b mod 16" by simp
  show "a div 4 * 4 + (a mod 4 * 16 + b div 16) div 16 = a" unfolding 1 by simp
  show "(a mod 4 * 16 + b div 16) mod 16 * 16 + (b mod 16 * 4 + c div 64) div 4 = b"
    unfolding 2 3 by simp
  show "(b mod 16 * 4 + c div 64) mod 4 * 64 + c mod 64 = c" unfolding 4 by simp
  show "a div 4 * 4 + (a mod 4 * 16) div 16 = a" unfolding 5 by simp
  show "(a mod 4 * 16 + b div 16) mod 16 * 16 + (b mod 16 * 4) div 4 = b" unfolding 2 6 by simp
qed

lemma b64_table:
  "list_all (\<lambda>n. b64index (b64char n) = Some n \<and> b64char n \<noteq> CHR ''='') [0..<64]"
  by code_simp

lemma b64_index_char:
  assumes "n < 64"
  shows "b64index (b64char n) = Some n" and "b64char n \<noteq> CHR ''=''"
proof -
  from assms have "n \<in> set [0..<64]" by simp
  with b64_table have "b64index (b64char n) = Some n \<and> b64char n \<noteq> CHR ''=''"
    unfolding list_all_iff by blast
  then show "b64index (b64char n) = Some n" and "b64char n \<noteq> CHR ''=''" by simp_all
qed

lemma decode_group:
  assumes "i1 < 64" and "i2 < 64" and "i3 < 64" and "i4 < 64"
  shows "base64_decode (b64char i1 # b64char i2 # b64char i3 # b64char i4 # rest) =
           (case base64_decode rest of
              None \<Rightarrow> None
            | Some bs \<Rightarrow>
                Some ([i1 * 4 + i2 div 16, i2 mod 16 * 16 + i3 div 4, i3 mod 4 * 64 + i4] @ bs))"
    and "base64_decode [b64char i1, b64char i2, b64char i3, CHR ''=''] =
           Some [i1 * 4 + i2 div 16, i2 mod 16 * 16 + i3 div 4]"
    and "base64_decode [b64char i1, b64char i2, CHR ''='', CHR ''=''] = Some [i1 * 4 + i2 div 16]"
  using b64_index_char [OF assms(1)] b64_index_char [OF assms(2)] b64_index_char [OF assms(3)]
    b64_index_char [OF assms(4)]
  by simp_all

lemma base64_roundtrip:
  assumes "\<forall>b \<in> set bs. b < 256"
  shows "base64_decode (base64 bs) = Some bs"
  using assms
proof (induction bs rule: base64.induct)
  case 1
  then show ?case by simp
next
  case (2 a)
  then have a: "a < 256" by simp
  note s = sextet_bounds [OF a a a] and e = sextet_bytes [OF a a]
  show ?case
    unfolding base64.simps decode_group(3) [OF s(1) s(5) s(1) s(1)] e(4) ..
next
  case (3 a b)
  then have a: "a < 256" and b: "b < 256" by simp_all
  note s = sextet_bounds [OF a b b] and e = sextet_bytes [OF b b]
  show ?case
    unfolding base64.simps decode_group(2) [OF s(1) s(2) s(6) s(1)] e(1) e(5) ..
next
  case (4 a b c rest)
  then have a: "a < 256" and b: "b < 256" and c: "c < 256"
    and r: "\<forall>x \<in> set rest. x < 256" by simp_all
  note s = sextet_bounds [OF a b c] and e = sextet_bytes [OF b c]
  show ?case
    unfolding base64.simps decode_group(1) [OF s(1) s(2) s(3) s(4)] "4.IH" [OF r] e(1) e(2) e(3)
    by simp
qed

lemma sample_dataURL:
  "dataURL \<lparr>blobType = ''image/svg+xml'', blobBytes = [60, 115, 118, 103]\<rparr>
     = ''data:image/svg+xml;base64,PHN2Zw==''"
  "dataURL \<lparr>blobType = ''image/png'', blobBytes = [137, 80, 78, 71]\<rparr>
     = ''data:image/png;base64,iVBORw==''"
  by code_simp+

subsection \<open>Sample runs\<close>

lemma g0: "computeResize 4000 2000 None None Contain =
   \<lparr>width = 4000, height = 2000, sx = 0, sy = 0, sWidth = 4000, sHeight = 2000\<rparr>"
  by code_simp

lemma demo_payloads:
  "extractMimeFromDataUrl ''data:image/jpeg;base64,AAAA'' = ''image/jpeg''"
  "extractMimeFromDataUrl ''data:image/png;base64,AAAA'' = ''image/png''"
  "extractMimeFromDataUrl ''data:image/svg+xml;base64,AAAA'' = ''image/svg+xml''"
  "estimateBase64SizeBytes ''data:image/jpeg;base64,AAAA'' = 3"
  "estimateBase64SizeBytes ''data:image/png;base64,AAAA'' = 3"
  "estimateBase64SizeBytes ''data:image/svg+xml;base64,AAAA'' = 3"
  "extractMimeFromDataUrl ''data:image/png;base64,iVBORw=='' = ''image/png''"
  "extractMimeFromDataUrl ''data:image/svg+xml;base64,PHN2Zw=='' = ''image/svg+xml''"
  "estimateBase64SizeBytes ''data:image/png;base64,iVBORw=='' = 4"
  "estimateBase64SizeBytes ''data:image/svg+xml;base64,PHN2Zw=='' = 4"
  by code_simp+

lemmas pipeline_defs =
  convertFileToBase64_def convertViaCanvas_def passthrough_def
  readFileAsArrayBuffer_def readFileAsDataURL_def blobToImageBitmap_def createCanvas_def
  draw_def canvasToDataURL_def isDomAvailable_def imageElementFallback_def clampCanvasMime_def
  normalizeTargetMime_def orElse_def isSvgMime_def falsy_def startsWith_def fileBlob_def
  bind_def catch_def call_def ret_def throw_def Let_def

lemmas demo_defs =
  browserEnv_def workerEnv_def pngOnlyEnv_def jpegFile_def pngFile_def svgFile_def
  noOptions_def svgTargetOptions_def webpTargetOptions_def demoBitmap_def

lemma run_jpeg_default:
  "convertFileToBase64 browserEnv jpegFile noOptions =
  ([CallArrayBuffer jpegFile,
    CallCreateImageBitmap \<lparr>blobType = ''image/jpeg'', blobBytes = [255, 216, 255]\<rparr>,
    CallNewCanvas HTMLCanvasElement 4000 2000,
    CallDraw (FillRect ''#ffffff'' 0 0 4000 2000),
    CallDraw (DrawImage demoBitmap 0 0 4000 2000 0 0 4000 2000),
    CallEncode HTMLCanvasElement ''image/jpeg'' (92 / 100)],
   Inr \<lparr>dataUrl = ''data:image/jpeg;base64,AAAA'', mime = ''image/jpeg'', sizeBytes = 3,
        resultWidth = Some 4000, resultHeight = Some 2000, fileName = ''photo.jpg''\<rparr>)"
  by (simp add: pipeline_defs demo_defs g0 demo_payloads)

lemma run_png_default:
  "convertFileToBase64 browserEnv pngFile noOptions =
  ([CallReadAsDataURL (fileBlob pngFile)],
   Inr \<lparr>dataUrl = ''data:image/png;base64,iVBORw=='', mime = ''image/png'', sizeBytes = 4,
        resultWidth = None, resultHeight = None, fileName = ''icon.png''\<rparr>)"
  by (simp add: pipeline_defs demo_defs demo_payloads sample_dataURL)

lemma run_svg_default:
  "convertFileToBase64 browserEnv svgFile noOptions =
  ([CallReadAsDataURL (fileBlob svgFile)],
   Inr \<lparr>dataUrl = ''data:image/svg+xml;base64,PHN2Zw=='', mime = ''image/svg+xml'',
        sizeBytes = 4, resultWidth = None, resultHeight = None, fileName = ''logo.svg''\<rparr>)"
  by (simp add: pipeline_defs demo_defs demo_payloads sample_dataURL)

lemma run_png_to_svg:
  "convertFileToBase64 browserEnv pngFile svgTargetOptions =
  ([CallArrayBuffer pngFile,
    CallCreateImageBitmap \<lparr>blobType = ''image/png'', blobBytes = [137, 80, 78, 71]\<rparr>,
    CallNewCanvas HTMLCanvasElement 4000 2000,
    CallDraw (DrawImage demoBitmap 0 0 4000 2000 0 0 4000 2000),
    CallEncode HTMLCanvasElement ''image/png'' (92 / 100)],
   Inr \<lparr>dataUrl = ''data:image/png;base64,AAAA'', mime = ''image/png'', sizeBytes = 3,
        resultWidth = Some 4000, resultHeight = Some 2000, fileName = ''icon.png''\<rparr>)"
  by (simp add: pipeline_defs demo_defs g0 demo_payloads)

lemma run_png_to_webp_png_only:
  "convertFileToBase64 pngOnlyEnv pngFile webpTargetOptions =
  ([CallArrayBuffer pngFile,
    CallCreateImageBitmap \<lparr>blobType = ''image/png'', blobBytes = [137, 80, 78, 71]\<rparr>,
    CallNewCanvas HTMLCanvasElement 4000 2000,
    CallDraw (DrawImage demoBitmap 0 0 4000 2000 0 0 4000 2000),
    CallEncode HTMLCanvasElement ''image/webp'' (92 / 100)],
   Inr \<lparr>dataUrl = ''data:image/png;base64,AAAA'', mime = ''image/png'', sizeBytes = 3,
        resultWidth = Some 4000, resultHeight = Some 2000, fileName = ''icon.png''\<rparr>)"
  by (simp add: pipeline_defs demo_defs g0 demo_payloads)

lemma run_worker_decode_fails:
  "convertFileToBase64 workerEnv jpegFile noOptions =
  ([CallArrayBuffer jpegFile,
    CallCreateImageBitmap \<lparr>blobType = ''image/jpeg'', blobBytes = [255, 216, 255]\<rparr>],
   Inl (Exn ''InvalidStateError''))"
  by (simp add: pipeline_defs demo_defs)

section \<open>Claims about utils.ts\<close>

text \<open>
  C5. The size estimator drops everything up to and including the first comma (the
  whole string is kept when there is none) and returns
  \<open>floor (length * 3 / 4) - paddingCount\<close>, where the padding count is 2, 1 or 0
  according to the trailing \<open>=\<close> characters. A 100-character payload yields 75 without
  padding, 74 with one trailing pad and 73 with two, with or without a header.
\<close>

theorem estimateBase64SizeBytes_spec:
  "estimateBase64SizeBytes s = estimate_spec s
   \<and> estimateBase64SizeBytes (replicate 100 (CHR ''A'')) = 75
   \<and> estimateBase64SizeBytes (replicate 99 (CHR ''A'') @ ''='') = 74
   \<and> estimateBase64SizeBytes (replicate 98 (CHR ''A'') @ ''=='') = 73
   \<and> estimateBase64SizeBytes (''data:image/png;base64,'' @ replicate 98 (CHR ''A'') @ ''=='') = 73"
proof -
  have gen: "estimateBase64SizeBytes s = estimate_spec s" for s
    by (simp add: estimate_payload estimate_spec_def paddingCount_def endsWith_rev Let_def
        numeral_2_eq_2)
  have e0: "estimateBase64SizeBytes (replicate 100 (CHR ''A'')) = 75"
    by code_simp
  have e1: "estimateBase64SizeBytes (replicate 99 (CHR ''A'') @ ''='') = 74"
    by code_simp
  have e2: "estimateBase64SizeBytes (replicate 98 (CHR ''A'') @ ''=='') = 73"
    by code_simp
  have e3: "estimateBase64SizeBytes
             (''data:image/png;base64,'' @ replicate 98 (CHR ''A'') @ ''=='') = 73"
    by code_simp
  from gen e0 e1 e2 e3 show ?thesis by simp
qed

text \<open>
  C8, as worded, lets an unrecognised target return the source mime itself. With an
  empty source mime the default branch of the switch returns the generic type
  instead, as the first branch does.
\<close>

theorem unrecognised_target_empty_source:
  "normalizeTargetMime [] (Some ''gif'') = ''application/octet-stream''
   \<and> normalizeTargetMime [] (Some ''gif'') \<noteq> []"
  by (simp add: normalizeTargetMime_def falsy_def orElse_def)

text \<open>
  C8 (amended). \<open>normalizeTargetMime\<close> returns the source mime, or
  \<open>application/octet-stream\<close> when the source mime is empty, for an absent target,
  for \<open>original\<close> and for \<open>base64\<close>; it maps \<open>png\<close>, \<open>jpeg\<close>, \<open>webp\<close> and \<open>svg\<close> to
  \<open>image/png\<close>, \<open>image/jpeg\<close>, \<open>image/webp\<close> and \<open>image/svg+xml\<close>; and for every other
  value it returns the source mime, or again \<open>application/octet-stream\<close> when the
  source mime is empty. It is a total function of its two arguments.
\<close>

theorem normalizeTargetMime_cases:
  "normalizeTargetMime m None = (if m = [] then ''application/octet-stream'' else m)
   \<and> normalizeTargetMime m (Some ''original'') = (if m = [] then ''application/octet-stream'' else m)
   \<and> normalizeTargetMime m (Some ''base64'') = (if m = [] then ''application/octet-stream'' else m)
   \<and> normalizeTargetMime m (Some ''png'') = ''image/png''
   \<and> normalizeTargetMime m (Some ''jpeg'') = ''image/jpeg''
   \<and> normalizeTargetMime m (Some ''webp'') = ''image/webp''
   \<and> normalizeTargetMime m (Some ''svg'') = ''image/svg+xml''
   \<and> (t \<notin> {''png'', ''jpeg'', ''webp'', ''svg''} \<longrightarrow>
        normalizeTargetMime m (Some t) = (if m = [] then ''application/octet-stream'' else m))"
  by (simp add: normalizeTargetMime_def falsy_def orElse_def)

theorem normalizeTargetMime_cases_witness:
  "''gif'' \<notin> {''png'', ''jpeg'', ''webp'', ''svg''}
   \<and> normalizeTargetMime ''image/gif'' (Some ''gif'') = ''image/gif''
   \<and> normalizeTargetMime [] (Some ''gif'') = ''application/octet-stream''
   \<and> normalizeTargetMime [] None = ''application/octet-stream''"
  using normalizeTargetMime_cases [of "''image/gif''" "''gif''"]
    normalizeTargetMime_cases [of "[]" "''gif''"]
  by simp


text \<open>
  C2, as worded, fails in contain mode: a 4 by 1 source bounded to width 1 is scaled
  by one quarter, and its height \<open>round 0.25\<close> is 0.
\<close>

theorem contain_output_can_vanish:
  "(0::int) < 4 \<and> (0::int) < 1 \<and> positive_bound (Some 1) \<and> positive_bound None
   \<and> computeResize 4 1 (Some 1) None Contain =
       \<lparr>width = 1, height = 0, sx = 0, sy = 0, sWidth = 4, sHeight = 1\<rparr>
   \<and> \<not> 1 \<le> height (computeResize 4 1 (Some 1) None Contain)"
  by (simp add: example_flat positive_bound_def)

text \<open>
  C2 (amended). For positive source dimensions up to \<open>2^50\<close>, optional positive
  bounds and both fit modes, the sampling rectangle of \<open>computeResize\<close> lies within
  the source (\<open>sx \<ge> 0\<close>, \<open>sy \<ge> 0\<close>, \<open>sx + sWidth \<le> srcW\<close>, \<open>sy + sHeight \<le> srcH\<close>, with
  sides that are not negative). The output width and height are at least 1 in
  cover mode; in contain mode they are not negative and at least one of them is at
  least 1.
\<close>

theorem geometry_within_source:
  assumes "0 < srcW" and "srcW \<le> 2 ^ 50" and "0 < srcH" and "srcH \<le> 2 ^ 50"
    and "positive_bound maxW" and "positive_bound maxH"
  shows "(let g = computeResize srcW srcH maxW maxH mode
          in 0 \<le> sx g \<and> 0 \<le> sy g \<and> 0 \<le> sWidth g \<and> 0 \<le> sHeight g
             \<and> sx g + sWidth g \<le> srcW \<and> sy g + sHeight g \<le> srcH
             \<and> 0 \<le> width g \<and> 0 \<le> height g \<and> (1 \<le> width g \<or> 1 \<le> height g)
             \<and> (mode = Cover \<longrightarrow> 1 \<le> width g \<and> 1 \<le> height g))"
proof (cases mode)
  case Contain
  let ?bw = "effective_bound maxW srcW" and ?bh = "effective_bound maxH srcH"
  let ?sc = "double_scale srcW srcH ?bw ?bh"
  have bw: "0 < ?bw" and bh: "0 < ?bh" using assms by (simp_all add: effective_bound_pos)
  from double_scale_range [OF assms(1,3) bw bh] have sc: "0 < ?sc" "?sc \<le> 1" by simp_all
  note w = contain_no_upscale [OF assms(1,2) sc] and h = contain_no_upscale [OF assms(3,4) sc]
  have one: "1 \<le> Math_round (js_mul (of_int srcW) ?sc) \<or> 1 \<le> Math_round (js_mul (of_int srcH) ?sc)"
  proof -
    consider "?sc = js_div (of_int ?bw) (of_int srcW)" | "?sc = js_div (of_int ?bh) (of_int srcH)"
      | "?sc = 1"
      unfolding double_scale_def
      using min3_cases [of "js_div (of_int ?bw) (of_int srcW)"
          "js_div (of_int ?bh) (of_int srcH)" 1]
      by blast
    then show ?thesis
    proof cases
      case 1
      with contain_constrained_side [OF assms(1) bw] show ?thesis by simp
    next
      case 2
      with contain_constrained_side [OF assms(3) bh] show ?thesis by simp
    next
      case 3
      have "srcW < 2 ^ 53" using assms(2) by simp
      then have "js_mul (of_int srcW) 1 = of_int srcW"
        using assms(1) by (simp add: js_mul_def fl_of_int)
      then have "Math_round (js_mul (of_int srcW) 1) = srcW" by (simp only: round_of_int)
      with 3 assms(1) show ?thesis by simp
    qed
  qed
  from w h one assms(1,3) Contain show ?thesis
    by (simp add: contain_shape Let_def)
next
  case Cover
  have bw: "0 < effective_bound maxW srcW" and bh: "0 < effective_bound maxH srcH"
    using assms by (simp_all add: effective_bound_pos)
  from cover_shape [OF assms] obtain cw ch where
    c: "0 \<le> cw" "cw \<le> srcW" "0 \<le> ch" "ch \<le> srcH"
    and g: "computeResize srcW srcH maxW maxH Cover =
         \<lparr>width = effective_bound maxW srcW, height = effective_bound maxH srcH,
          sx = (srcW - cw) div 2, sy = (srcH - ch) div 2, sWidth = cw, sHeight = ch\<rparr>"
    by blast
  have "0 \<le> (srcW - cw) div 2" "(srcW - cw) div 2 + cw \<le> srcW"
    "0 \<le> (srcH - ch) div 2" "(srcH - ch) div 2 + ch \<le> srcH"
    using c by simp_all
  with c bw bh Cover show ?thesis by (simp add: g Let_def)
qed

theorem geometry_within_source_witness:
  "(0::int) < 4000 \<and> (4000::int) \<le> 2 ^ 50 \<and> (0::int) < 2000 \<and> (2000::int) \<le> 2 ^ 50
   \<and> positive_bound (Some 1000) \<and> positive_bound (Some 1000)
   \<and> sx (computeResize 4000 2000 (Some 1000) (Some 1000) Cover)
       + sWidth (computeResize 4000 2000 (Some 1000) (Some 1000) Cover) \<le> 4000
   \<and> 1 \<le> width (computeResize 4000 2000 (Some 1000) (Some 1000) Cover)
   \<and> 0 \<le> height (computeResize 4000 2000 (Some 1000) (Some 1000) Contain)"
proof -
  have h: "(0::int) < 4000" "(4000::int) \<le> 2 ^ 50" "(0::int) < 2000" "(2000::int) \<le> 2 ^ 50"
    by simp_all
  have p: "positive_bound (Some 1000)" by (simp add: positive_bound_def)
  from geometry_within_source [OF h p p, of Cover] geometry_within_source [OF h p p, of Contain]
    h p show ?thesis by (simp add: Let_def)
qed




text \<open>
  C4, as worded, reads the crop formula in plain arithmetic. The source evaluates it
  on doubles, and at a tie the two differ: for a 10 by 49 source with bounds 1 by 98
  the exact product \<open>49 * (1 / 98)\<close> is one half, which rounds to 1, while the source
  returns sampling width 0 (and origin 5 instead of 4).
\<close>

theorem cover_tie_differs:
  "computeResize 10 49 (Some 1) (Some 98) Cover =
     \<lparr>width = 1, height = 98, sx = 5, sy = 0, sWidth = 0, sHeight = 49\<rparr>
   \<and> cover_spec 10 49 (Some 1) (Some 98) =
     \<lparr>width = 1, height = 98, sx = 4, sy = 0, sWidth = 1, sHeight = 49\<rparr>
   \<and> computeResize 10 49 (Some 1) (Some 98) Cover \<noteq> cover_spec 10 49 (Some 1) (Some 98)"
  by (simp add: tie_cover)

text \<open>
  C4 (amended). In cover mode, for positive source dimensions and optional positive
  bounds, the output dimensions of \<open>computeResize\<close> are the effective bounds. When
  \<open>srcW / srcH > maxW / maxH\<close> the sampling width is \<open>round (srcH * (maxW / maxH))\<close> and
  the sampling height is the full height; otherwise the sampling height is
  \<open>round (srcW / (maxW / maxH))\<close> and the sampling width is the full width; every
  quotient and product, also in the comparison, is rounded to the nearest double
  before it is used. For sides up to \<open>2^50\<close> the origin is the floored centred offset
  \<open>(srcW - sWidth) div 2\<close>, \<open>(srcH - sHeight) div 2\<close>, and each side of the sampling
  rectangle is within 1 of the value of the formula in exact arithmetic; for sides
  and bounds up to \<open>2^16\<close> the result is that of the exact formula unless an exact
  product or quotient lies halfway between two integers. A 4000 by 2000 source
  bounded to 1000 by 1000 yields 1000 by 1000 sampled from the 2000 by 2000 square at
  \<open>(1000, 0)\<close> under both readings.
\<close>

theorem cover_geometry:
  assumes "0 < srcW" and "0 < srcH" and "positive_bound maxW" and "positive_bound maxH"
  shows "width (computeResize srcW srcH maxW maxH Cover) = effective_bound maxW srcW
     \<and> height (computeResize srcW srcH maxW maxH Cover) = effective_bound maxH srcH
     \<and> (sWidth (computeResize srcW srcH maxW maxH Cover),
         sHeight (computeResize srcW srcH maxW maxH Cover))
         = double_crop srcW srcH (effective_bound maxW srcW) (effective_bound maxH srcH)
     \<and> (srcW \<le> 2 ^ 50 \<and> srcH \<le> 2 ^ 50 \<longrightarrow>
          sx (computeResize srcW srcH maxW maxH Cover)
            = (srcW - sWidth (computeResize srcW srcH maxW maxH Cover)) div 2
          \<and> sy (computeResize srcW srcH maxW maxH Cover)
            = (srcH - sHeight (computeResize srcW srcH maxW maxH Cover)) div 2
          \<and> \<bar>sWidth (computeResize srcW srcH maxW maxH Cover)
             - sWidth (cover_spec srcW srcH maxW maxH)\<bar> \<le> 1
          \<and> \<bar>sHeight (computeResize srcW srcH maxW maxH Cover)
             - sHeight (cover_spec srcW srcH maxW maxH)\<bar> \<le> 1)
     \<and> (srcW \<le> 2 ^ 16 \<and> srcH \<le> 2 ^ 16
          \<and> effective_bound maxW srcW \<le> 2 ^ 16 \<and> effective_bound maxH srcH \<le> 2 ^ 16
          \<and> \<not> halfway (of_int srcH
                * (of_int (effective_bound maxW srcW) / of_int (effective_bound maxH srcH)))
          \<and> \<not> halfway (of_int srcW
                / (of_int (effective_bound maxW srcW) / of_int (effective_bound maxH srcH))) \<longrightarrow>
          computeResize srcW srcH maxW maxH Cover = cover_spec srcW srcH maxW maxH)
     \<and> computeResize 4000 2000 (Some 1000) (Some 1000) Cover =
         \<lparr>width = 1000, height = 1000, sx = 1000, sy = 0, sWidth = 2000, sHeight = 2000\<rparr>
     \<and> cover_spec 4000 2000 (Some 1000) (Some 1000) =
         \<lparr>width = 1000, height = 1000, sx = 1000, sy = 0, sWidth = 2000, sHeight = 2000\<rparr>"
proof -
  let ?bw = "effective_bound maxW srcW" and ?bh = "effective_bound maxH srcH"
  let ?g = "computeResize srcW srcH maxW maxH Cover"
  let ?e = "cover_spec srcW srcH maxW maxH"
  let ?d = "double_crop srcW srcH ?bw ?bh" and ?x = "exact_crop srcW srcH ?bw ?bh"
  have bw: "0 < ?bw" and bh: "0 < ?bh" using assms by (simp_all add: effective_bound_pos)
  have dims: "width ?g = ?bw" "height ?g = ?bh"
    by (simp_all add: computeResize_def effective_bound_case Let_def)
  have crop: "(sWidth ?g, sHeight ?g) = ?d"
    by (simp add: computeResize_def double_crop_def effective_bound_case Let_def)
  then have cw: "sWidth ?g = fst ?d" and ch: "sHeight ?g = snd ?d" by (simp_all add: prod_eq_iff)
  have ew: "sWidth ?e = fst ?x" and eh: "sHeight ?e = snd ?x"
    by (simp_all add: cover_spec_crop Let_def)
  have big: "sx ?g = (srcW - sWidth ?g) div 2 \<and> sy ?g = (srcH - sHeight ?g) div 2
      \<and> \<bar>sWidth ?g - sWidth ?e\<bar> \<le> 1 \<and> \<bar>sHeight ?g - sHeight ?e\<bar> \<le> 1"
    if b: "srcW \<le> 2 ^ 50 \<and> srcH \<le> 2 ^ 50"
  proof -
    from b have b1: "srcW \<le> 2 ^ 50" and b2: "srcH \<le> 2 ^ 50" by simp_all
    note ex = cover_explicit [OF assms(1) b1 assms(2) b2 assms(3,4)]
    have o: "sx ?g = (srcW - sWidth ?g) div 2" "sy ?g = (srcH - sHeight ?g) div 2"
      by (simp_all add: ex Let_def)
    from crop_width_rel [OF assms(1) b1 assms(2) bw bh]
    have w: "\<bar>sWidth ?g - sWidth ?e\<bar> \<le> 1" unfolding cw ew by blast
    from crop_height_rel [OF assms(1,2) b2 bw bh]
    have h: "\<bar>sHeight ?g - sHeight ?e\<bar> \<le> 1" unfolding ch eh by blast
    from o w h show ?thesis by blast
  qed
  have eq: "?g = ?e"
    if s: "srcW \<le> 2 ^ 16 \<and> srcH \<le> 2 ^ 16 \<and> ?bw \<le> 2 ^ 16 \<and> ?bh \<le> 2 ^ 16
        \<and> \<not> halfway (of_int srcH * (of_int ?bw / of_int ?bh))
        \<and> \<not> halfway (of_int srcW / (of_int ?bw / of_int ?bh))"
  proof -
    from s have b1: "srcW \<le> 2 ^ 50" and b2: "srcH \<le> 2 ^ 50" by simp_all
    from crop_width_rel [OF assms(1) b1 assms(2) bw bh] s have w: "fst ?d = fst ?x" by blast
    from crop_height_rel [OF assms(1,2) b2 bw bh] s have h: "snd ?d = snd ?x" by blast
    from cover_explicit [OF assms(1) b1 assms(2) b2 assms(3,4)] w h show ?thesis
      by (simp add: cover_spec_crop Let_def)
  qed
  from dims crop big eq example_cover example_specs(2) show ?thesis by blast
qed

theorem cover_geometry_witness:
  "(0::int) < 1920 \<and> (0::int) < 1080 \<and> positive_bound (Some 300) \<and> positive_bound None
   \<and> (1920::int) \<le> 2 ^ 16 \<and> (1080::int) \<le> 2 ^ 16
   \<and> effective_bound (Some 300) 1920 \<le> 2 ^ 16 \<and> effective_bound None 1080 \<le> 2 ^ 16
   \<and> \<not> halfway (of_int 1080
         * (of_int (effective_bound (Some 300) 1920) / of_int (effective_bound None 1080)))
   \<and> \<not> halfway (of_int 1920
         / (of_int (effective_bound (Some 300) 1920) / of_int (effective_bound None 1080)))
   \<and> computeResize 1920 1080 (Some 300) None Cover = cover_spec 1920 1080 (Some 300) None
   \<and> width (computeResize 1920 1080 (Some 300) None Cover) = effective_bound (Some 300) 1920
   \<and> height (computeResize 1920 1080 (Some 300) None Cover) = effective_bound None 1080"
proof -
  have h: "(0::int) < 1920" "(0::int) < 1080" by simp_all
  have b: "(1920::int) \<le> 2 ^ 16" "(1080::int) \<le> 2 ^ 16"
    "effective_bound (Some 300) 1920 \<le> 2 ^ 16" "effective_bound None 1080 \<le> 2 ^ 16"
    by (simp_all add: effective_bound_def)
  have p: "positive_bound (Some 300)" "positive_bound None"
    by (simp_all add: positive_bound_def)
  have t: "\<not> halfway (of_int 1080
         * (of_int (effective_bound (Some 300) 1920) / of_int (effective_bound None 1080)))"
    "\<not> halfway (of_int 1920
         / (of_int (effective_bound (Some 300) 1920) / of_int (effective_bound None 1080)))"
    by code_simp+
  from cover_geometry [OF h p] h b p t show ?thesis by blast
qed

section \<open>Claims about convert.ts\<close>

text \<open>
  C1, as worded, fails: a JPEG file converted with no target format and no resize is
  read as bytes, decoded, drawn on a white background and encoded again as
  \<open>image/jpeg\<close>, and the result carries a width and a height. The test
  \<^verbatim>\<open>targetMimeRequested === 'image/jpeg'\<close> sets \<^verbatim>\<open>needsCanvas\<close> for it.
\<close>

theorem jpeg_default_not_passthrough:
  "fileType jpegFile = ''image/jpeg'' \<and> targetFormat noOptions = None \<and> resize noOptions = None
   \<and> convertFileToBase64 browserEnv jpegFile noOptions =
  ([CallArrayBuffer jpegFile,
    CallCreateImageBitmap \<lparr>blobType = ''image/jpeg'', blobBytes = [255, 216, 255]\<rparr>,
    CallNewCanvas HTMLCanvasElement 4000 2000,
    CallDraw (FillRect ''#ffffff'' 0 0 4000 2000),
    CallDraw (DrawImage demoBitmap 0 0 4000 2000 0 0 4000 2000),
    CallEncode HTMLCanvasElement ''image/jpeg'' (92 / 100)],
   Inr \<lparr>dataUrl = ''data:image/jpeg;base64,AAAA'', mime = ''image/jpeg'', sizeBytes = 3,
        resultWidth = Some 4000, resultHeight = Some 2000, fileName = ''photo.jpg''\<rparr>)"
  using run_jpeg_default by (simp add: jpegFile_def noOptions_def)

text \<open>
  C1 (amended). With no target format and no resize, a file whose declared mime
  starts with \<open>image/\<close> takes the passthrough path unless that mime is \<open>image/jpeg\<close>:
  the only platform call reads the file as a data URL, and the result has neither
  width nor height. A file declared \<open>image/jpeg\<close> takes the render path under the same
  options: the first call reads its bytes, and a successful result carries a width
  and a height after an encode at \<open>image/jpeg\<close>.
\<close>

theorem unset_target_image_paths:
  assumes "targetFormat options = None" and "resize options = None"
    and "startsWith (fileType file) ''image/''"
  shows "(fileType file = ''image/jpeg'' \<longrightarrow>
            (\<exists>t. fst (convertFileToBase64 env file options) = CallArrayBuffer file # t)
            \<and> (\<forall>t res. convertFileToBase64 env file options = (t, Inr res) \<longrightarrow>
                 (\<exists>w h. resultWidth res = Some w \<and> resultHeight res = Some h)
                 \<and> (\<exists>buf. CallCreateImageBitmap
                            \<lparr>blobType = ''image/jpeg'', blobBytes = buf\<rparr> \<in> set t)
                 \<and> (\<exists>k q. CallEncode k ''image/jpeg'' q \<in> set t)))
       \<and> (fileType file \<noteq> ''image/jpeg'' \<longrightarrow>
            convertFileToBase64 env file options =
              ([CallReadAsDataURL (fileBlob file)],
               case readAsDataURL env (fileBlob file) of
                 Inl e \<Rightarrow> Inl e
               | Inr d \<Rightarrow> Inr \<lparr>dataUrl = d, mime = extractMimeFromDataUrl d,
                              sizeBytes = estimateBase64SizeBytes d,
                              resultWidth = None, resultHeight = None,
                              fileName = name file\<rparr>))"
proof -
  from assms(3) have ne: "fileType file \<noteq> []" by (auto simp: startsWith_def)
  then have om: "orElse (fileType file) ''application/octet-stream'' = fileType file"
    by (simp add: orElse_def)
  have tm: "normalizeTargetMime (fileType file) None = fileType file"
    using ne by (simp add: normalizeTargetMime_def falsy_def orElse_def)
  have jpeg: "convertFileToBase64 env file options =
      convertViaCanvas env file options ''image/jpeg'' ''image/jpeg''"
    if "fileType file = ''image/jpeg''"
    using that assms tm
    by (simp add: convertFileToBase64_def Let_def orElse_def isSvgMime_def falsy_def
        startsWith_def)
  have other: "convertFileToBase64 env file options = passthrough env file"
    if "fileType file \<noteq> ''image/jpeg''"
    using that assms tm
    by (simp add: convertFileToBase64_def Let_def om falsy_def)
  have clamp: "clampCanvasMime ''image/jpeg'' = ''image/jpeg''" by (simp add: clampCanvasMime_def)
  show ?thesis
  proof (intro conjI impI allI)
    assume "fileType file = ''image/jpeg''"
    then show "\<exists>t. fst (convertFileToBase64 env file options) = CallArrayBuffer file # t"
      using via_head by (simp add: jpeg)
  next
    fix t res
    assume j: "fileType file = ''image/jpeg''"
      and r: "convertFileToBase64 env file options = (t, Inr res)"
    from via_Inr [OF r [unfolded jpeg [OF j]]]
    show "\<exists>w h. resultWidth res = Some w \<and> resultHeight res = Some h" by blast
  next
    fix t res
    assume j: "fileType file = ''image/jpeg''"
      and r: "convertFileToBase64 env file options = (t, Inr res)"
    from via_Inr_decoded [OF r [unfolded jpeg [OF j]]]
    show "\<exists>buf. CallCreateImageBitmap \<lparr>blobType = ''image/jpeg'', blobBytes = buf\<rparr> \<in> set t" .
  next
    fix t res
    assume j: "fileType file = ''image/jpeg''"
      and r: "convertFileToBase64 env file options = (t, Inr res)"
    from via_Inr [OF r [unfolded jpeg [OF j]]]
    show "\<exists>k q. CallEncode k ''image/jpeg'' q \<in> set t" by (simp add: clamp)
  next
    assume "fileType file \<noteq> ''image/jpeg''"
    then show "convertFileToBase64 env file options =
              ([CallReadAsDataURL (fileBlob file)],
               case readAsDataURL env (fileBlob file) of
                 Inl e \<Rightarrow> Inl e
               | Inr d \<Rightarrow> Inr \<lparr>dataUrl = d, mime = extractMimeFromDataUrl d,
                              sizeBytes = estimateBase64SizeBytes d,
                              resultWidth = None, resultHeight = None,
                              fileName = name file\<rparr>)"
      by (simp add: other passthrough_eq)
  qed
qed

theorem unset_target_image_paths_witness:
  "targetFormat noOptions = None \<and> resize noOptions = None
   \<and> startsWith (fileType jpegFile) ''image/'' \<and> fileType jpegFile = ''image/jpeg''
   \<and> startsWith (fileType pngFile) ''image/'' \<and> fileType pngFile \<noteq> ''image/jpeg''
   \<and> (\<exists>t. fst (convertFileToBase64 browserEnv jpegFile noOptions) = CallArrayBuffer jpegFile # t)
   \<and> convertFileToBase64 browserEnv pngFile noOptions =
       ([CallReadAsDataURL (fileBlob pngFile)],
        Inr \<lparr>dataUrl = ''data:image/png;base64,iVBORw=='', mime = ''image/png'', sizeBytes = 4,
             resultWidth = None, resultHeight = None, fileName = ''icon.png''\<rparr>)"
proof -
  have h1: "targetFormat noOptions = None" and h2: "resize noOptions = None"
    by (simp_all add: noOptions_def)
  have j: "startsWith (fileType jpegFile) ''image/''" "fileType jpegFile = ''image/jpeg''"
    by (simp_all add: jpegFile_def startsWith_def)
  have p: "startsWith (fileType pngFile) ''image/''" "fileType pngFile \<noteq> ''image/jpeg''"
    by (simp_all add: pngFile_def startsWith_def)
  have rd: "readAsDataURL browserEnv (fileBlob pngFile) = Inr ''data:image/png;base64,iVBORw==''"
    by (simp add: browserEnv_def fileBlob_def pngFile_def sample_dataURL)
  from unset_target_image_paths [OF h1 h2 j(1), of browserEnv]
    unset_target_image_paths [OF h1 h2 p(1), of browserEnv] h1 h2 j p rd
  show ?thesis by (simp add: demo_payloads pngFile_def)
qed

text \<open>
  C6. For a file whose declared mime is \<open>image/svg+xml\<close> or \<open>image/svg\<close> and a target
  format that is unset, \<open>svg\<close>, \<open>base64\<close> or \<open>original\<close>, the conversion makes one
  platform call, reading the blob of the file's own type and bytes as a data URL, and
  returns the reader's payload as it is, without width or height: nothing is decoded,
  drawn or encoded, and a failure of the read is the failure of the conversion. With
  a reader that follows the File API the payload is \<open>data:\<close>, the file's type,
  \<open>;base64,\<close> and the base64 text of the file's bytes; decoding the part after the
  comma gives back exactly those bytes, and the result's mime is the file's type.
\<close>

theorem svg_passthrough:
  assumes "isSvgMime (fileType file)"
    and "targetFormat options \<in> {None, Some ''svg'', Some ''base64'', Some ''original''}"
  shows "convertFileToBase64 env file options =
     ([CallReadAsDataURL \<lparr>blobType = fileType file, blobBytes = fileBytes file\<rparr>],
      case readAsDataURL env \<lparr>blobType = fileType file, blobBytes = fileBytes file\<rparr> of
        Inl e \<Rightarrow> Inl e
      | Inr d \<Rightarrow> Inr \<lparr>dataUrl = d, mime = extractMimeFromDataUrl d,
                     sizeBytes = estimateBase64SizeBytes d,
                     resultWidth = None, resultHeight = None, fileName = name file\<rparr>)
   \<and> (readAsDataURL env \<lparr>blobType = fileType file, blobBytes = fileBytes file\<rparr>
         = Inr (dataURL \<lparr>blobType = fileType file, blobBytes = fileBytes file\<rparr>)
       \<and> (\<forall>b \<in> set (fileBytes file). b < 256) \<longrightarrow>
       (\<exists>res. snd (convertFileToBase64 env file options) = Inr res
          \<and> dataUrl res = ''data:'' @ fileType file @ '';base64,'' @ base64 (fileBytes file)
          \<and> base64_decode (sliceFrom (dataUrl res) (indexOf (dataUrl res) (CHR '','') + 1))
              = Some (fileBytes file)
          \<and> mime res = fileType file
          \<and> resultWidth res = None \<and> resultHeight res = None \<and> fileName res = name file))"
proof -
  let ?blob = "\<lparr>blobType = fileType file, blobBytes = fileBytes file\<rparr>"
  let ?d = "''data:'' @ fileType file @ '';base64,'' @ base64 (fileBytes file)"
  from assms(1) have ne: "fileType file \<noteq> []" by (auto simp: isSvgMime_def)
  then have om: "orElse (fileType file) ''application/octet-stream'' = fileType file"
    by (simp add: orElse_def)
  from assms have "convertFileToBase64 env file options = passthrough env file"
    by (auto simp: convertFileToBase64_def Let_def om falsy_def)
  then have run: "convertFileToBase64 env file options =
     ([CallReadAsDataURL ?blob],
      case readAsDataURL env ?blob of
        Inl e \<Rightarrow> Inl e
      | Inr d \<Rightarrow> Inr \<lparr>dataUrl = d, mime = extractMimeFromDataUrl d,
                     sizeBytes = estimateBase64SizeBytes d,
                     resultWidth = None, resultHeight = None, fileName = name file\<rparr>)"
    by (simp add: passthrough_eq fileBlob_def)
  have url: "dataURL ?blob = ?d" by (simp add: dataURL_def om)
  from assms(1) have nosemi: "CHR '';'' \<notin> set (fileType file)"
    and nocomma: "CHR '','' \<notin> set (''data:'' @ fileType file @ '';base64'')"
    by (auto simp: isSvgMime_def)
  have mime: "extractMimeFromDataUrl ?d = fileType file"
    using extract_header [OF ne nosemi, of "''base64,'' @ base64 (fileBytes file)"] by simp
  have "sliceFrom ((''data:'' @ fileType file @ '';base64'') @ CHR '','' # base64 (fileBytes file))
          (indexOf ((''data:'' @ fileType file @ '';base64'') @ CHR '','' # base64 (fileBytes file))
             (CHR '','') + 1) = base64 (fileBytes file)"
    using nocomma by (rule sliceFrom_after)
  then have payload: "sliceFrom ?d (indexOf ?d (CHR '','') + 1) = base64 (fileBytes file)"
    by simp
  have conform: "\<exists>res. snd (convertFileToBase64 env file options) = Inr res
          \<and> dataUrl res = ?d
          \<and> base64_decode (sliceFrom (dataUrl res) (indexOf (dataUrl res) (CHR '','') + 1))
              = Some (fileBytes file)
          \<and> mime res = fileType file
          \<and> resultWidth res = None \<and> resultHeight res = None \<and> fileName res = name file"
    if r: "readAsDataURL env ?blob = Inr (dataURL ?blob)"
      and bytes: "\<forall>b \<in> set (fileBytes file). b < 256"
  proof -
    have "snd (convertFileToBase64 env file options) =
        Inr \<lparr>dataUrl = ?d, mime = extractMimeFromDataUrl ?d,
             sizeBytes = estimateBase64SizeBytes ?d,
             resultWidth = None, resultHeight = None, fileName = name file\<rparr>"
      by (simp add: run r url)
    moreover have "base64_decode (sliceFrom ?d (indexOf ?d (CHR '','') + 1))
        = Some (fileBytes file)"
      unfolding payload using bytes by (rule base64_roundtrip)
    ultimately show ?thesis using mime by simp
  qed
  from run conform show ?thesis by blast
qed

theorem svg_passthrough_witness:
  "isSvgMime (fileType svgFile)
   \<and> targetFormat noOptions \<in> {None, Some ''svg'', Some ''base64'', Some ''original''}
   \<and> readAsDataURL browserEnv \<lparr>blobType = fileType svgFile, blobBytes = fileBytes svgFile\<rparr>
       = Inr (dataURL \<lparr>blobType = fileType svgFile, blobBytes = fileBytes svgFile\<rparr>)
   \<and> list_all (\<lambda>b. b < 256) (fileBytes svgFile)
   \<and> convertFileToBase64 browserEnv svgFile noOptions =
     ([CallReadAsDataURL \<lparr>blobType = ''image/svg+xml'', blobBytes = [60, 115, 118, 103]\<rparr>],
      Inr \<lparr>dataUrl = ''data:image/svg+xml;base64,PHN2Zw=='', mime = ''image/svg+xml'',
           sizeBytes = 4, resultWidth = None, resultHeight = None, fileName = ''logo.svg''\<rparr>)
   \<and> base64_decode ''PHN2Zw=='' = Some [60, 115, 118, 103]"
proof -
  have h1: "isSvgMime (fileType svgFile)" by (simp add: isSvgMime_def svgFile_def)
  have h2: "targetFormat noOptions \<in> {None, Some ''svg'', Some ''base64'', Some ''original''}"
    by (simp add: noOptions_def)
  have h3: "readAsDataURL browserEnv \<lparr>blobType = fileType svgFile, blobBytes = fileBytes svgFile\<rparr>
       = Inr (dataURL \<lparr>blobType = fileType svgFile, blobBytes = fileBytes svgFile\<rparr>)"
    by (simp add: browserEnv_def)
  have h4: "\<forall>b \<in> set (fileBytes svgFile). b < 256" by (simp add: svgFile_def)
  have f: "fileType svgFile = ''image/svg+xml''" "fileBytes svgFile = [60, 115, 118, 103]"
    "name svgFile = ''logo.svg''"
    by (simp_all add: svgFile_def)
  note t = svg_passthrough [OF h1 h2, of browserEnv]
  from t h3 h4 obtain res where
    r: "snd (convertFileToBase64 browserEnv svgFile noOptions) = Inr res"
    and d: "dataUrl res = ''data:'' @ fileType svgFile @ '';base64,'' @ base64 (fileBytes svgFile)"
    and dec: "base64_decode (sliceFrom (dataUrl res) (indexOf (dataUrl res) (CHR '','') + 1))
              = Some (fileBytes svgFile)"
    by blast
  have run: "convertFileToBase64 browserEnv svgFile noOptions =
     ([CallReadAsDataURL \<lparr>blobType = ''image/svg+xml'', blobBytes = [60, 115, 118, 103]\<rparr>],
      Inr \<lparr>dataUrl = ''data:image/svg+xml;base64,PHN2Zw=='', mime = ''image/svg+xml'',
           sizeBytes = 4, resultWidth = None, resultHeight = None, fileName = ''logo.svg''\<rparr>)"
    using t h3 by (simp add: f sample_dataURL demo_payloads)
  from r run have "res = \<lparr>dataUrl = ''data:image/svg+xml;base64,PHN2Zw=='',
      mime = ''image/svg+xml'', sizeBytes = 4, resultWidth = None, resultHeight = None,
      fileName = ''logo.svg''\<rparr>" by simp
  then have "dataUrl res = ''data:image/svg+xml;base64,PHN2Zw==''" by simp
  with dec have "base64_decode ''PHN2Zw=='' = Some [60, 115, 118, 103]"
    by (simp add: f sliceFrom_def slice_def clampIndex_def)
  moreover have "list_all (\<lambda>b. b < 256) (fileBytes svgFile)" by (simp add: svgFile_def)
  ultimately show ?thesis using h1 h2 h3 run by blast
qed

text \<open>
  C7. Whenever a conversion calls the encoder, the mime it passes is \<open>image/jpeg\<close>
  or \<open>image/webp\<close> when that is the resolved target, and \<open>image/png\<close> for every other
  resolved target; and every successful conversion through the canvas (a result
  with a width) has made such a call.
\<close>

theorem encoder_mime_clamped:
  "(CallEncode k m q \<in> set (fst (convertFileToBase64 env file options)) \<longrightarrow>
      m = (let resolved = normalizeTargetMime
                 (orElse (fileType file) ''application/octet-stream'') (targetFormat options)
           in if resolved = ''image/jpeg'' then ''image/jpeg''
              else if resolved = ''image/webp'' then ''image/webp''
              else ''image/png''))
   \<and> (\<forall>t res. convertFileToBase64 env file options = (t, Inr res) \<and> resultWidth res \<noteq> None \<longrightarrow>
        (\<exists>k' q'. CallEncode k' (clampCanvasMime (normalizeTargetMime
              (orElse (fileType file) ''application/octet-stream'') (targetFormat options))) q'
            \<in> set t))"
proof -
  let ?om = "orElse (fileType file) ''application/octet-stream''"
  let ?tm = "normalizeTargetMime ?om (targetFormat options)"
  from convert_cases [of env "file" options] show ?thesis
  proof
    assume "convertFileToBase64 env file options = passthrough env file"
    then show ?thesis by (auto simp: passthrough_eq split: sum.splits)
  next
    assume c: "convertFileToBase64 env file options = convertViaCanvas env file options ?om ?tm"
    have "m = clampCanvasMime ?tm"
      if "CallEncode k m q \<in> set (fst (convertFileToBase64 env file options))"
      using that via_encode by (simp add: c)
    moreover have "\<exists>k' q'. CallEncode k' (clampCanvasMime ?tm) q' \<in> set t"
      if "convertFileToBase64 env file options = (t, Inr res)" for t res
      using via_Inr [OF that [unfolded c]] by blast
    ultimately show ?thesis by (auto simp: clampCanvasMime_def Let_def)
  qed
qed

theorem encoder_mime_clamped_witness:
  "CallEncode HTMLCanvasElement ''image/png'' (92 / 100)
     \<in> set (fst (convertFileToBase64 browserEnv pngFile svgTargetOptions))
   \<and> normalizeTargetMime (orElse (fileType pngFile) ''application/octet-stream'')
        (targetFormat svgTargetOptions) = ''image/svg+xml''
   \<and> CallEncode HTMLCanvasElement ''image/jpeg'' (92 / 100)
     \<in> set (fst (convertFileToBase64 browserEnv jpegFile noOptions))
   \<and> normalizeTargetMime (orElse (fileType jpegFile) ''application/octet-stream'')
        (targetFormat noOptions) = ''image/jpeg''"
proof -
  have h: "CallEncode HTMLCanvasElement ''image/png'' (92 / 100)
     \<in> set (fst (convertFileToBase64 browserEnv pngFile svgTargetOptions))"
    by (simp add: run_png_to_svg)
  have h': "CallEncode HTMLCanvasElement ''image/jpeg'' (92 / 100)
     \<in> set (fst (convertFileToBase64 browserEnv jpegFile noOptions))"
    by (simp add: run_jpeg_default)
  have n: "normalizeTargetMime (orElse (fileType pngFile) ''application/octet-stream'')
        (targetFormat svgTargetOptions) = ''image/svg+xml''"
    by (simp add: normalizeTargetMime_def falsy_def svgTargetOptions_def noOptions_def)
  have n': "normalizeTargetMime (orElse (fileType jpegFile) ''application/octet-stream'')
        (targetFormat noOptions) = ''image/jpeg''"
    by (simp add: normalizeTargetMime_def falsy_def noOptions_def jpegFile_def orElse_def)
  from encoder_mime_clamped [of HTMLCanvasElement "''image/png''" "92 / 100" browserEnv pngFile
      svgTargetOptions]
    encoder_mime_clamped [of HTMLCanvasElement "''image/jpeg''" "92 / 100" browserEnv jpegFile
      noOptions] h h' n n'
  show ?thesis by simp
qed

text \<open>
  C9. When a conversion reaches the primary decode \<^verbatim>\<open>createImageBitmap(blob)\<close>, that
  decode rejects with \<open>err\<close> and no DOM is available, the conversion fails with \<open>err\<close>
  itself, and the decode is its last platform call: no fallback, no retry, no result.
\<close>

theorem primary_decode_error_propagates:
  assumes "CallCreateImageBitmap blob \<in> set (fst (convertFileToBase64 env file options))"
    and "createImageBitmap env blob = Inl err"
    and "\<not> isDomAvailable env"
  shows "convertFileToBase64 env file options =
           ([CallArrayBuffer file, CallCreateImageBitmap blob], Inl err)"
proof -
  from convert_cases [of env "file" options] show ?thesis
  proof
    assume "convertFileToBase64 env file options = passthrough env file"
    with assms(1) show ?thesis by (simp add: passthrough_eq)
  next
    assume c: "convertFileToBase64 env file options =
       convertViaCanvas env file options (orElse (fileType file) ''application/octet-stream'')
         (normalizeTargetMime (orElse (fileType file) ''application/octet-stream'')
            (targetFormat options))"
    from via_decode_fails [OF assms(1) [unfolded c] assms(2,3)] c show ?thesis by auto
  qed
qed

theorem primary_decode_error_propagates_witness:
  "CallCreateImageBitmap \<lparr>blobType = ''image/jpeg'', blobBytes = [255, 216, 255]\<rparr>
     \<in> set (fst (convertFileToBase64 workerEnv jpegFile noOptions))
   \<and> createImageBitmap workerEnv \<lparr>blobType = ''image/jpeg'', blobBytes = [255, 216, 255]\<rparr>
       = Inl (Exn ''InvalidStateError'')
   \<and> \<not> isDomAvailable workerEnv
   \<and> convertFileToBase64 workerEnv jpegFile noOptions =
       ([CallArrayBuffer jpegFile,
         CallCreateImageBitmap \<lparr>blobType = ''image/jpeg'', blobBytes = [255, 216, 255]\<rparr>],
        Inl (Exn ''InvalidStateError''))"
proof -
  have h1: "CallCreateImageBitmap \<lparr>blobType = ''image/jpeg'', blobBytes = [255, 216, 255]\<rparr>
     \<in> set (fst (convertFileToBase64 workerEnv jpegFile noOptions))"
    by (simp add: run_worker_decode_fails)
  have h2: "createImageBitmap workerEnv \<lparr>blobType = ''image/jpeg'', blobBytes = [255, 216, 255]\<rparr>
       = Inl (Exn ''InvalidStateError'')"
    by (simp add: workerEnv_def)
  have h3: "\<not> isDomAvailable workerEnv" by (simp add: isDomAvailable_def workerEnv_def)
  from primary_decode_error_propagates [OF h1 h2 h3] h1 h2 h3 show ?thesis by simp
qed

text \<open>
  C10. The mime of every successful result, on either path, is extracted from the
  returned payload: it is the text between \<open>data:\<close> and the first semicolon when that
  text is not empty, and \<open>application/octet-stream\<close> when the payload does not start
  with \<open>data:\<close>, has no semicolon, or has nothing between the two. The requested
  target does not enter: the witness is a canvas that answers a WebP request with a
  PNG payload, and the result says \<open>image/png\<close>.
\<close>

theorem result_mime_from_payload:
  "(\<forall>t res. convertFileToBase64 env file options = (t, Inr res) \<longrightarrow>
      mime res = extractMimeFromDataUrl (dataUrl res))
   \<and> (\<forall>m rest. m \<noteq> [] \<and> CHR '';'' \<notin> set m \<longrightarrow>
        extractMimeFromDataUrl (''data:'' @ m @ CHR '';'' # rest) = m)
   \<and> (\<forall>d. \<not> startsWith d ''data:'' \<or> CHR '';'' \<notin> set d \<longrightarrow>
        extractMimeFromDataUrl d = ''application/octet-stream'')
   \<and> (\<forall>rest. extractMimeFromDataUrl (''data:;'' @ rest) = ''application/octet-stream'')"
proof -
  have "mime res = extractMimeFromDataUrl (dataUrl res)"
    if r: "convertFileToBase64 env file options = (t, Inr res)" for t res
    using convert_cases [of env "file" options]
  proof
    assume "convertFileToBase64 env file options = passthrough env file"
    with r show ?thesis by (auto simp: passthrough_eq split: sum.splits)
  next
    assume "convertFileToBase64 env file options =
       convertViaCanvas env file options (orElse (fileType file) ''application/octet-stream'')
         (normalizeTargetMime (orElse (fileType file) ''application/octet-stream'')
            (targetFormat options))"
    with r via_Inr show ?thesis by metis
  qed
  then show ?thesis
    using extract_header extract_no_header extract_empty_type by blast
qed

theorem result_mime_from_payload_witness:
  "convertFileToBase64 pngOnlyEnv pngFile webpTargetOptions =
     (fst (convertFileToBase64 pngOnlyEnv pngFile webpTargetOptions),
      Inr \<lparr>dataUrl = ''data:image/png;base64,AAAA'', mime = ''image/png'', sizeBytes = 3,
           resultWidth = Some 4000, resultHeight = Some 2000, fileName = ''icon.png''\<rparr>)
   \<and> normalizeTargetMime (orElse (fileType pngFile) ''application/octet-stream'')
        (targetFormat webpTargetOptions) = ''image/webp''
   \<and> extractMimeFromDataUrl (''data:'' @ ''image/png'' @ CHR '';'' # ''base64,AAAA'') = ''image/png''
   \<and> extractMimeFromDataUrl ''AAAA'' = ''application/octet-stream''"
proof -
  have r: "convertFileToBase64 pngOnlyEnv pngFile webpTargetOptions =
     (fst (convertFileToBase64 pngOnlyEnv pngFile webpTargetOptions),
      Inr \<lparr>dataUrl = ''data:image/png;base64,AAAA'', mime = ''image/png'', sizeBytes = 3,
           resultWidth = Some 4000, resultHeight = Some 2000, fileName = ''icon.png''\<rparr>)"
    by (simp add: run_png_to_webp_png_only)
  have n: "normalizeTargetMime (orElse (fileType pngFile) ''application/octet-stream'')
        (targetFormat webpTargetOptions) = ''image/webp''"
    by (simp add: normalizeTargetMime_def falsy_def webpTargetOptions_def noOptions_def)
  have a: "''image/png'' \<noteq> [] \<and> CHR '';'' \<notin> set ''image/png''" by simp
  have b: "\<not> startsWith ''AAAA'' ''data:'' \<or> CHR '';'' \<notin> set ''AAAA''" by simp
  from result_mime_from_payload [of pngOnlyEnv pngFile webpTargetOptions] r n a b
  show ?thesis by blast
qed

end
